theory Spec2Isabelle
  imports Main "HOL-Library.Word"
begin

section \<open>Multi-upload LSIF query resolver (package resolvers)\<close>

text \<open>
  The resolver of \<^verbatim>\<open>src/unnamed/part_000\<close> fans a position query out to the LSIF
  uploads of a commit. Its three operations (\<^verbatim>\<open>Definitions\<close>, \<^verbatim>\<open>References\<close>,
  \<^verbatim>\<open>Hover\<close>) and its cursor codec (\<^verbatim>\<open>readCursor\<close>, \<^verbatim>\<open>makeCursor\<close>) are
  embedded below.

  A Go \<^verbatim>\<open>string\<close> is a sequence of bytes and so is an Isabelle \<^typ>\<open>string\<close>
  (a \<^typ>\<open>char\<close> is one byte). A Go \<^verbatim>\<open>error\<close> is a value of the datatype
  \<open>error\<close>; a function returning \<^verbatim>\<open>(T, error)\<close> returns \<open>error + T\<close>.
\<close>

datatype error =
    CorruptInputError      \<comment> \<open>\<^verbatim>\<open>base64.CorruptInputError\<close>\<close>
  | JSONError              \<comment> \<open>\<^verbatim>\<open>*json.SyntaxError\<close> or \<^verbatim>\<open>*json.UnmarshalTypeError\<close>\<close>
  | ClientError string     \<comment> \<open>whatever error the LSIF server client returns\<close>

text \<open>
  \<^verbatim>\<open>map[int64]string\<close>: an association list with one entry per key. A lookup is
  \<^const>\<open>map_of\<close>, the assignment \<^verbatim>\<open>m[k] = v\<close> is \<open>mapassign\<close>, \<^verbatim>\<open>len(m)\<close> is
  \<^const>\<open>length\<close>. Go's nil map and its empty map are both \<open>[]\<close>: the resolver only
  reads the map that \<^verbatim>\<open>readCursor\<close> returns, and reads of a nil map behave as reads of
  an empty one.
\<close>

type_synonym cursors = "(64 word \<times> string) list"

fun mapassign :: "'k \<Rightarrow> 'v \<Rightarrow> ('k \<times> 'v) list \<Rightarrow> ('k \<times> 'v) list" where
  "mapassign k v [] = [(k, v)]"
| "mapassign k v (p # ps) = (if fst p = k then (k, v) # ps else p # mapassign k v ps)"


subsection \<open>encoding/base64: \<^verbatim>\<open>StdEncoding\<close>\<close>

text \<open>
  The Go standard library is not part of the repository; the two packages the codec
  calls are written out here at the types the codec uses them at. \<^verbatim>\<open>StdEncoding\<close> is
  the RFC 4648 alphabet with \<^verbatim>\<open>=\<close> padding, not strict: the decoder ignores CR and LF
  everywhere and does not check the unused low bits of a padded quantum. The byte
  offset a \<^verbatim>\<open>CorruptInputError\<close> carries is not modelled.
\<close>

definition encodeStd :: string where
  "encodeStd = ''ABCDEFGHIJKLMNOPQRSTUVWXYZabcdefghijklmnopqrstuvwxyz0123456789+/''"

fun index_of :: "'a \<Rightarrow> 'a list \<Rightarrow> nat option" where
  "index_of x [] = None"
| "index_of x (y # ys) = (if x = y then Some 0 else map_option Suc (index_of x ys))"

definition decodeMap :: "char \<Rightarrow> nat option" where
  \<comment> \<open>\<^verbatim>\<open>enc.decodeMap[in]\<close>, with \<^verbatim>\<open>0xff\<close> as \<open>None\<close>\<close>
  "decodeMap c = index_of c encodeStd"

definition encode6 :: "nat \<Rightarrow> char" where
  \<comment> \<open>\<^verbatim>\<open>enc.encode[v & 0x3F]\<close>\<close>
  "encode6 v = encodeStd ! (v mod 64)"

definition padChar :: char where
  "padChar = CHR ''=''"

fun EncodeToString :: "string \<Rightarrow> string" where
  "EncodeToString [] = []"
| "EncodeToString [a] =
     (let val = of_char a * 2 ^ 16 :: nat
      in [encode6 (val div 2 ^ 18), encode6 (val div 2 ^ 12), padChar, padChar])"
| "EncodeToString [a, b] =
     (let val = of_char a * 2 ^ 16 + of_char b * 2 ^ 8 :: nat
      in [encode6 (val div 2 ^ 18), encode6 (val div 2 ^ 12), encode6 (val div 2 ^ 6), padChar])"
| "EncodeToString (a # b # c # src) =
     (let val = of_char a * 2 ^ 16 + of_char b * 2 ^ 8 + of_char c :: nat
      in [encode6 (val div 2 ^ 18), encode6 (val div 2 ^ 12), encode6 (val div 2 ^ 6), encode6 val]
         @ EncodeToString src)"

definition isNewline :: "char \<Rightarrow> bool" where
  "isNewline c = (c = CHR 0x0A \<or> c = CHR 0x0D)"

fun skipNewlines :: "string \<Rightarrow> string" where
  "skipNewlines [] = []"
| "skipNewlines (c # cs) = (if isNewline c then skipNewlines cs else c # cs)"

definition quantumVal :: "nat \<Rightarrow> nat \<Rightarrow> nat \<Rightarrow> nat \<Rightarrow> nat" where
  \<comment> \<open>\<^verbatim>\<open>uint(dbuf[0])<<18 | uint(dbuf[1])<<12 | uint(dbuf[2])<<6 | uint(dbuf[3])\<close>;
      every \<^verbatim>\<open>dbuf[j]\<close> is below 64, so the bit ranges are disjoint\<close>
  "quantumVal d0 d1 d2 d3 = d0 * 2 ^ 18 + d1 * 2 ^ 12 + d2 * 2 ^ 6 + d3"

fun quantumBytes :: "nat list \<Rightarrow> string" where
  \<comment> \<open>the \<^verbatim>\<open>dlen - 1\<close> bytes of a quantum of \<^verbatim>\<open>dlen\<close> sextets\<close>
  "quantumBytes [d0, d1] = [char_of (quantumVal d0 d1 0 0 div 2 ^ 16)]"
| "quantumBytes [d0, d1, d2] =
     [char_of (quantumVal d0 d1 d2 0 div 2 ^ 16), char_of (quantumVal d0 d1 d2 0 div 2 ^ 8)]"
| "quantumBytes [d0, d1, d2, d3] =
     [char_of (quantumVal d0 d1 d2 d3 div 2 ^ 16), char_of (quantumVal d0 d1 d2 d3 div 2 ^ 8),
      char_of (quantumVal d0 d1 d2 d3)]"
| "quantumBytes _ = []"

text \<open>
  \<^verbatim>\<open>Decode\<close> with \<^verbatim>\<open>decodeQuantum\<close>: \<open>dbuf\<close> holds the sextets of the quantum read so
  far (\<^verbatim>\<open>j\<close> is its length).
\<close>

fun decodeQuanta :: "nat list \<Rightarrow> string \<Rightarrow> error + string" where
  "decodeQuanta dbuf [] = (if dbuf = [] then Inr [] else Inl CorruptInputError)"
| "decodeQuanta dbuf (c # src) =
     (case decodeMap c of
        Some out \<Rightarrow>
          if length dbuf = 3
          then (case decodeQuanta [] src of
                  Inl err \<Rightarrow> Inl err
                | Inr dst \<Rightarrow> Inr (quantumBytes (dbuf @ [out]) @ dst))
          else decodeQuanta (dbuf @ [out]) src
      | None \<Rightarrow>
          if isNewline c then decodeQuanta dbuf src
          else if c \<noteq> padChar then Inl CorruptInputError
          else if length dbuf < 2 then Inl CorruptInputError
          else if length dbuf = 2 then
            (case skipNewlines src of
               [] \<Rightarrow> Inl CorruptInputError
             | p # src' \<Rightarrow>
                 if p \<noteq> padChar then Inl CorruptInputError
                 else if skipNewlines src' \<noteq> [] then Inl CorruptInputError
                 else Inr (quantumBytes dbuf))
          else if skipNewlines src \<noteq> [] then Inl CorruptInputError
          else Inr (quantumBytes dbuf))"

definition DecodeString :: "string \<Rightarrow> error + string" where
  "DecodeString s = decodeQuanta [] s"


subsection \<open>unicode/utf8 and unicode/utf16\<close>

abbreviation dquote :: char where "dquote \<equiv> CHR 0x22"
abbreviation backslash :: char where "backslash \<equiv> CHR 0x5C"

definition RuneError :: nat where
  "RuneError = 0xFFFD"

text \<open>
  \<^verbatim>\<open>utf8.DecodeRune\<close>: the rune and the number of bytes it takes; an invalid or
  truncated sequence is \<^verbatim>\<open>(RuneError, 1)\<close>. The cases of the first byte are those of
  the tables \<^verbatim>\<open>first\<close> and \<^verbatim>\<open>acceptRanges\<close>.
\<close>

definition DecodeRune :: "string \<Rightarrow> nat \<times> nat" where
  "DecodeRune p =
     (case p of
        [] \<Rightarrow> (RuneError, 0)
      | c0 # q \<Rightarrow>
          let p0 = of_char c0 :: nat in
          if p0 < 0x80 then (p0, 1)
          else if p0 < 0xC2 \<or> 0xF4 < p0 then (RuneError, 1)
          else
            let sz = (if p0 < 0xE0 then 2 else if p0 < 0xF0 then 3 else 4 :: nat);
                lo = (if p0 = 0xE0 then 0xA0 else if p0 = 0xF0 then 0x90 else 0x80 :: nat);
                hi = (if p0 = 0xED then 0x9F else if p0 = 0xF4 then 0x8F else 0xBF :: nat)
            in
              if length p < sz then (RuneError, 1)
              else
                let b1 = of_char (q ! 0) :: nat in
                if b1 < lo \<or> hi < b1 then (RuneError, 1)
                else if sz \<le> 2 then ((p0 mod 32) * 64 + b1 mod 64, 2)
                else
                  let b2 = of_char (q ! 1) :: nat in
                  if b2 < 0x80 \<or> 0xBF < b2 then (RuneError, 1)
                  else if sz \<le> 3 then ((p0 mod 16) * 4096 + (b1 mod 64) * 64 + b2 mod 64, 3)
                  else
                    let b3 = of_char (q ! 2) :: nat in
                    if b3 < 0x80 \<or> 0xBF < b3 then (RuneError, 1)
                    else ((p0 mod 8) * 262144 + (b1 mod 64) * 4096 + (b2 mod 64) * 64
                            + b3 mod 64, 4))"

definition EncodeRune :: "nat \<Rightarrow> string" where
  "EncodeRune r =
     (if r \<le> 0x7F then [char_of r]
      else if r \<le> 0x7FF then [char_of (0xC0 + r div 64), char_of (0x80 + r mod 64)]
      else if 0x10FFFF < r \<or> (0xD800 \<le> r \<and> r \<le> 0xDFFF) then [CHR 0xEF, CHR 0xBF, CHR 0xBD]
      else if r \<le> 0xFFFF then
        [char_of (0xE0 + r div 4096), char_of (0x80 + r div 64 mod 64), char_of (0x80 + r mod 64)]
      else
        [char_of (0xF0 + r div 262144), char_of (0x80 + r div 4096 mod 64),
         char_of (0x80 + r div 64 mod 64), char_of (0x80 + r mod 64)])"

text \<open>
  \<^verbatim>\<open>utf8.ValidString\<close>: no position of the string decodes to \<^verbatim>\<open>(RuneError, 1)\<close>.
\<close>

fun ValidString :: "string \<Rightarrow> bool" where
  "ValidString [] = True"
| "ValidString (b # s) =
     (if (of_char b :: nat) < 0x80 then ValidString s
      else (case DecodeRune (b # s) of
              (c, n) \<Rightarrow> \<not> (c = RuneError \<and> n = 1) \<and> ValidString (drop (n - 1) s)))"

definition IsSurrogate :: "nat \<Rightarrow> bool" where
  "IsSurrogate r = (0xD800 \<le> r \<and> r < 0xE000)"

definition DecodeRune16 :: "nat \<Rightarrow> nat \<Rightarrow> nat" where
  \<comment> \<open>\<^verbatim>\<open>utf16.DecodeRune\<close>\<close>
  "DecodeRune16 r1 r2 =
     (if 0xD800 \<le> r1 \<and> r1 < 0xDC00 \<and> 0xDC00 \<le> r2 \<and> r2 < 0xE000
      then (r1 - 0xD800) * 1024 + (r2 - 0xDC00) + 0x10000
      else RuneError)"


subsection \<open>strconv\<close>

function formatUint :: "nat \<Rightarrow> string" where
  "formatUint u = (if u < 10 then [char_of (48 + u)] else formatUint (u div 10) @ [char_of (48 + u mod 10)])"
  by pat_completeness auto
termination
  by (relation "measure id") auto

declare formatUint.simps [simp del]

definition FormatInt :: "int \<Rightarrow> string" where
  \<comment> \<open>\<^verbatim>\<open>strconv.FormatInt(i, 10)\<close>\<close>
  "FormatInt i = (if i < 0 then CHR ''-'' # formatUint (nat (- i)) else formatUint (nat i))"

definition isDigit :: "char \<Rightarrow> bool" where
  "isDigit c = (48 \<le> (of_char c :: nat) \<and> (of_char c :: nat) \<le> 57)"

fun parseDigits :: "nat \<Rightarrow> string \<Rightarrow> nat option" where
  "parseDigits n [] = Some n"
| "parseDigits n (c # s) = (if isDigit c then parseDigits (n * 10 + (of_char c - 48)) s else None)"

definition ParseUint :: "string \<Rightarrow> nat option" where
  \<comment> \<open>base 10; the value is not bounded here, \<open>ParseInt\<close> checks the range\<close>
  "ParseUint s = (if s = [] then None else parseDigits 0 s)"

definition ParseInt :: "string \<Rightarrow> int option" where
  \<comment> \<open>\<^verbatim>\<open>strconv.ParseInt(s, 10, 64)\<close>; \<open>None\<close> is a \<^verbatim>\<open>*NumError\<close> (syntax or range)\<close>
  "ParseInt s =
     (case s of
        [] \<Rightarrow> None
      | c # s' \<Rightarrow>
          let neg = (c = CHR ''-'');
              digits = (if c = CHR ''+'' \<or> c = CHR ''-'' then s' else s)
          in (case ParseUint digits of
                None \<Rightarrow> None
              | Some un \<Rightarrow>
                  if \<not> neg \<and> 2 ^ 63 \<le> un then None
                  else if neg \<and> 2 ^ 63 < un then None
                  else Some (if neg then - int un else int un)))"


subsection \<open>encoding/json: \<^verbatim>\<open>Marshal\<close> of a \<^verbatim>\<open>map[int64]string\<close>\<close>

definition hex :: string where
  "hex = ''0123456789abcdef''"

definition htmlSafeSet :: "char \<Rightarrow> bool" where
  \<comment> \<open>the table of \<^verbatim>\<open>encoding/json/tables.go\<close>, for a byte below \<^verbatim>\<open>utf8.RuneSelf\<close>\<close>
  "htmlSafeSet b =
     (0x20 \<le> (of_char b :: nat) \<and> (of_char b :: nat) < 0x80 \<and> b \<noteq> dquote \<and> b \<noteq> CHR ''&''
      \<and> b \<noteq> CHR ''<'' \<and> b \<noteq> CHR ''>'' \<and> b \<noteq> backslash)"

definition escapeByte :: "char \<Rightarrow> string" where
  "escapeByte b =
     (if b = backslash \<or> b = dquote then [backslash, b]
      else if b = CHR 0x0A then [backslash, CHR ''n'']
      else if b = CHR 0x0D then [backslash, CHR ''r'']
      else if b = CHR 0x09 then [backslash, CHR ''t'']
      else [backslash, CHR ''u'', CHR ''0'', CHR ''0'',
            hex ! (of_char b div 16), hex ! (of_char b mod 16)])"

text \<open>
  \<^verbatim>\<open>encodeState.string(s, escapeHTML = true)\<close>, without the two quotes. The source
  advances by \<^verbatim>\<open>size\<close> bytes (\<open>n\<close> here) after \<^verbatim>\<open>DecodeRuneInString\<close>; \<open>b\<close> is the
  first of them. The escapes are those of the Go release of the repository's time;
  later releases also write backspace and form feed as two-character escapes, which the
  decoder below reads as well.
\<close>

fun encodeString :: "string \<Rightarrow> string" where
  "encodeString [] = []"
| "encodeString (b # s) =
     (if (of_char b :: nat) < 0x80 then
        (if htmlSafeSet b then b # encodeString s else escapeByte b @ encodeString s)
      else
        (case DecodeRune (b # s) of
           (c, n) \<Rightarrow>
             if c = RuneError \<and> n = 1
             then backslash # ''ufffd'' @ encodeString s
             else if c = 0x2028 \<or> c = 0x2029
             then backslash # ''u202'' @ [hex ! (c mod 16)] @ encodeString (drop (n - 1) s)
             else b # take (n - 1) s @ encodeString (drop (n - 1) s)))"

definition quoted :: "string \<Rightarrow> string" where
  "quoted s = dquote # encodeString s @ [dquote]"

fun stringLess :: "string \<Rightarrow> string \<Rightarrow> bool" where
  \<comment> \<open>Go's \<^verbatim>\<open><\<close> on strings: bytewise lexicographic\<close>
  "stringLess [] [] = False"
| "stringLess [] (y # ys) = True"
| "stringLess (x # xs) [] = False"
| "stringLess (x # xs) (y # ys) =
     ((of_char x :: nat) < of_char y \<or> (x = y \<and> stringLess xs ys))"

fun insertSorted :: "string \<times> 'v \<Rightarrow> (string \<times> 'v) list \<Rightarrow> (string \<times> 'v) list" where
  "insertSorted kv [] = [kv]"
| "insertSorted kv (p # ps) =
     (if stringLess (fst kv) (fst p) then kv # p # ps else p # insertSorted kv ps)"

definition sortByKey :: "(string \<times> 'v) list \<Rightarrow> (string \<times> 'v) list" where
  \<comment> \<open>\<^verbatim>\<open>sort.Slice(sv, func(i, j int) bool { return sv[i].s < sv[j].s })\<close>\<close>
  "sortByKey sv = foldr insertSorted sv []"

fun encodeMembers :: "(string \<times> string) list \<Rightarrow> string" where
  "encodeMembers [] = []"
| "encodeMembers [(ks, v)] = quoted ks @ CHR '':'' # quoted v"
| "encodeMembers ((ks, v) # kvs) = quoted ks @ CHR '':'' # quoted v @ CHR '','' # encodeMembers kvs"

definition resolveKey :: "64 word \<times> string \<Rightarrow> string \<times> string" where
  \<comment> \<open>\<^verbatim>\<open>reflectWithString.resolve\<close>: an integer key is written by \<^verbatim>\<open>strconv.FormatInt\<close>\<close>
  "resolveKey kv = (FormatInt (sint (fst kv)), snd kv)"

definition Marshal :: "cursors \<Rightarrow> error + string" where
  \<comment> \<open>the map encoder: the keys as strings, sorted. It has no error for this type.
      \<open>makeCursor\<close> calls it on maps with an entry only.\<close>
  "Marshal m = Inr (CHR ''{'' # encodeMembers (sortByKey (map resolveKey m)) @ ''}'')"


subsection \<open>encoding/json: \<^verbatim>\<open>Unmarshal\<close> into a \<^verbatim>\<open>map[int64]string\<close>\<close>

text \<open>
  \<^verbatim>\<open>Unmarshal\<close> first checks that the input is one JSON value (\<^verbatim>\<open>checkValid\<close>, a
  \<^verbatim>\<open>*SyntaxError\<close> otherwise) and then stores it; a value of the wrong type for its
  place (a top-level array, string, number or boolean, a key that \<^verbatim>\<open>strconv.ParseInt\<close>
  rejects, an element that is neither a string nor \<^verbatim>\<open>null\<close>) is recorded as a
  \<^verbatim>\<open>*UnmarshalTypeError\<close>, which \<^verbatim>\<open>Unmarshal\<close> returns after the rest is stored.
  Either way the call returns an error, so the inputs without error are those of the
  grammar below: \<^verbatim>\<open>null\<close>, or an object whose keys are string literals that parse as
  an \<^verbatim>\<open>int64\<close> and whose elements are string literals or \<^verbatim>\<open>null\<close>, with white space
  between the tokens. Everything else is \<open>JSONError\<close>, which stands for both error
  types. A \<^verbatim>\<open>null\<close> at top level leaves the map as it is (nil); a \<^verbatim>\<open>null\<close> element
  stores the empty string; a repeated key overwrites.
\<close>

definition isSpace :: "char \<Rightarrow> bool" where
  "isSpace c = (c = CHR '' '' \<or> c = CHR 0x09 \<or> c = CHR 0x0D \<or> c = CHR 0x0A)"

fun skipSpace :: "string \<Rightarrow> string" where
  "skipSpace [] = []"
| "skipSpace (c # s) = (if isSpace c then skipSpace s else c # s)"

definition hexval :: "char \<Rightarrow> nat option" where
  "hexval c =
     (let x = of_char c :: nat in
      if 48 \<le> x \<and> x \<le> 57 then Some (x - 48)
      else if 97 \<le> x \<and> x \<le> 102 then Some (x - 97 + 10)
      else if 65 \<le> x \<and> x \<le> 70 then Some (x - 65 + 10)
      else None)"

definition getu4 :: "string \<Rightarrow> nat option" where
  \<comment> \<open>the rune of a \<^verbatim>\<open>\uXXXX\<close> at the head of \<open>s\<close>; \<open>None\<close> is Go's \<^verbatim>\<open>-1\<close>\<close>
  "getu4 s =
     (case s of
        c0 # c1 # h0 # h1 # h2 # h3 # _ \<Rightarrow>
          if c0 = backslash \<and> c1 = CHR ''u'' then
            (case (hexval h0, hexval h1, hexval h2, hexval h3) of
               (Some a, Some b, Some c, Some d) \<Rightarrow> Some (((a * 16 + b) * 16 + c) * 16 + d)
             | _ \<Rightarrow> None)
          else None
      | _ \<Rightarrow> None)"

definition unescape :: "char \<Rightarrow> char option" where
  \<comment> \<open>the one-character escapes the scanner accepts\<close>
  "unescape e =
     (if e = dquote \<or> e = backslash \<or> e = CHR ''/'' then Some e
      else if e = CHR ''b'' then Some (CHR 0x08)
      else if e = CHR ''f'' then Some (CHR 0x0C)
      else if e = CHR ''n'' then Some (CHR 0x0A)
      else if e = CHR ''r'' then Some (CHR 0x0D)
      else if e = CHR ''t'' then Some (CHR 0x09)
      else None)"

definition emit :: "string \<Rightarrow> (string \<times> string) option \<Rightarrow> (string \<times> string) option" where
  "emit out r = map_option (\<lambda>(t, rest). (out @ t, rest)) r"

text \<open>
  A string literal, read from behind its opening quote: the unquoted bytes and the input
  behind the closing quote, or \<open>None\<close> where the scanner rejects the literal (a control
  character, an unknown escape, a \<^verbatim>\<open>\u\<close> without four hex digits, no closing quote).
  The scanner's string states and \<^verbatim>\<open>unquoteBytes\<close> are one pass here: what
  \<^verbatim>\<open>unquoteBytes\<close> looks ahead at (a second \<^verbatim>\<open>\uXXXX\<close>, the continuation bytes of a
  rune) never contains a quote, so reading on in the input is reading on in the literal.
  Invalid UTF-8 and unpaired surrogates become U+FFFD.
\<close>

fun unquoteBytes :: "string \<Rightarrow> (string \<times> string) option" where
  "unquoteBytes [] = None"
| "unquoteBytes (c # s) =
     (if c = dquote then Some ([], s)
      else if c = backslash then
        (case s of
           [] \<Rightarrow> None
         | e # s' \<Rightarrow>
             if e = CHR ''u'' then
               (case getu4 (c # s) of
                  None \<Rightarrow> None
                | Some rr \<Rightarrow>
                    if IsSurrogate rr then
                      (case getu4 (drop 4 s') of
                         None \<Rightarrow> emit (EncodeRune RuneError) (unquoteBytes (drop 4 s'))
                       | Some rr1 \<Rightarrow>
                           if DecodeRune16 rr rr1 \<noteq> RuneError
                           then emit (EncodeRune (DecodeRune16 rr rr1)) (unquoteBytes (drop 10 s'))
                           else emit (EncodeRune RuneError) (unquoteBytes (drop 4 s')))
                    else emit (EncodeRune rr) (unquoteBytes (drop 4 s')))
             else (case unescape e of
                     None \<Rightarrow> None
                   | Some b \<Rightarrow> emit [b] (unquoteBytes s')))
      else if (of_char c :: nat) < 0x20 then None
      else if (of_char c :: nat) < 0x80 then emit [c] (unquoteBytes s)
      else (case DecodeRune (c # s) of
              (rr, n) \<Rightarrow> emit (EncodeRune rr) (unquoteBytes (drop (n - 1) s))))"

definition elementValue :: "string \<Rightarrow> (string \<times> string) option" where
  \<comment> \<open>a map element: a string literal, or \<^verbatim>\<open>null\<close> (the zero string)\<close>
  "elementValue s =
     (case s of
        [] \<Rightarrow> None
      | c # s' \<Rightarrow>
          if c = dquote then unquoteBytes s'
          else if take 4 s = ''null'' then Some ([], drop 4 s)
          else None)"


lemma emit_Some: "emit out r = Some (t, rest) \<Longrightarrow> \<exists>t'. r = Some (t', rest)"
  by (auto simp: emit_def)

lemma unquoteBytes_length_aux:
  "length s \<le> n \<Longrightarrow> unquoteBytes s = Some (t, rest) \<Longrightarrow> length rest < length s"
proof (induction n arbitrary: s t)
  case 0
  then show ?case by simp
next
  case (Suc n)
  show ?case
  proof (cases s)
    case Nil
    with Suc.prems show ?thesis by simp
  next
    case (Cons c s0)
    have ih: "\<And>a t'. unquoteBytes a = Some (t', rest) \<Longrightarrow> length a \<le> length s0
                \<Longrightarrow> length rest < Suc (length s0)"
    proof -
      fix a t'
      assume a: "unquoteBytes a = Some (t', rest)" and l: "length a \<le> length s0"
      from Suc.prems(1) Cons l have "length a \<le> n" by simp
      from Suc.IH[OF this a] l show "length rest < Suc (length s0)" by simp
    qed
    from Suc.prems(2) show ?thesis
      unfolding Cons
      by (auto split: if_splits list.splits option.splits prod.splits
               dest!: emit_Some dest: ih)
  qed
qed

lemma unquoteBytes_length: "unquoteBytes s = Some (t, rest) \<Longrightarrow> length rest < length s"
  using unquoteBytes_length_aux[of s "length s"] by simp

lemma skipSpace_length: "length (skipSpace s) \<le> length s"
  by (induction s) auto

lemma elementValue_length: "elementValue s = Some (v, rest) \<Longrightarrow> length rest \<le> length s"
  by (cases s) (auto simp: elementValue_def split: if_splits dest: unquoteBytes_length)

text \<open>
  The members of an object, read from the opening quote of a key; \<open>m\<close> is the map
  stored so far.
\<close>

function objectMembers :: "string \<Rightarrow> cursors \<Rightarrow> error + cursors" where
  "objectMembers [] m = Inl JSONError"
| "objectMembers (c # s) m =
     (if c \<noteq> dquote then Inl JSONError
      else
        (case unquoteBytes s of
           None \<Rightarrow> Inl JSONError
         | Some (key, r1) \<Rightarrow>
             (case skipSpace r1 of
                [] \<Rightarrow> Inl JSONError
              | c2 # r2 \<Rightarrow>
                  if c2 \<noteq> CHR '':'' then Inl JSONError
                  else
                    (case elementValue (skipSpace r2) of
                       None \<Rightarrow> Inl JSONError
                     | Some (v, r3) \<Rightarrow>
                         (case ParseInt key of
                            None \<Rightarrow> Inl JSONError
                          | Some n \<Rightarrow>
                              (case skipSpace r3 of
                                 [] \<Rightarrow> Inl JSONError
                               | c4 # r4 \<Rightarrow>
                                   if c4 = CHR '','' then
                                     objectMembers (skipSpace r4) (mapassign (word_of_int n) v m)
                                   else if c4 = CHR ''}'' then
                                     (if skipSpace r4 = [] then Inr (mapassign (word_of_int n) v m)
                                      else Inl JSONError)
                                   else Inl JSONError))))))"
  by pat_completeness auto
termination
proof (relation "measure (\<lambda>(s, m). length s)")
  show "wf (measure (\<lambda>(s, m). length s))" by simp
next
  fix c :: char and s m x2 key r1 c2 r2 x2a v r3 n c4 r4
  assume "unquoteBytes s = Some x2" "(key, r1) = x2" "skipSpace r1 = c2 # r2"
    "elementValue (skipSpace r2) = Some x2a" "(v, r3) = x2a" "skipSpace r3 = c4 # r4"
  then have a: "length r1 < length s" and b: "Suc (length r2) \<le> length r1"
    and c: "length r3 \<le> length (skipSpace r2)" and d: "Suc (length r4) \<le> length r3"
    using unquoteBytes_length[of s key r1] skipSpace_length[of r1]
      elementValue_length[of "skipSpace r2" v r3] skipSpace_length[of r3]
    by auto
  from a b c d skipSpace_length[of r2] skipSpace_length[of r4]
  show "((skipSpace r4, mapassign (word_of_int n) v m), c # s, m) \<in> measure (\<lambda>(s, m). length s)"
    by simp
qed

definition Unmarshal :: "string \<Rightarrow> error + cursors" where
  "Unmarshal data =
     (case skipSpace data of
        [] \<Rightarrow> Inl JSONError
      | c # s \<Rightarrow>
          if c = CHR ''{'' then
            (case skipSpace s of
               [] \<Rightarrow> Inl JSONError
             | c' # s' \<Rightarrow>
                 if c' = CHR ''}'' then (if skipSpace s' = [] then Inr [] else Inl JSONError)
                 else objectMembers (c' # s') [])
          else if take 4 (c # s) = ''null'' \<and> skipSpace (drop 4 (c # s)) = [] then Inr []
          else Inl JSONError)"


subsection \<open>The cursor codec\<close>

definition readCursor :: "string option \<Rightarrow> error + cursors" where
  "readCursor after =
     (case after of
        None \<Rightarrow> Inr []
      | Some a \<Rightarrow>
          (case DecodeString a of
             Inl err \<Rightarrow> Inl err
           | Inr decoded \<Rightarrow>
               (case Unmarshal decoded of
                  Inl err \<Rightarrow> Inl err
                | Inr cursors \<Rightarrow> Inr cursors)))"

definition makeCursor :: "cursors \<Rightarrow> error + string" where
  "makeCursor cursors =
     (if length cursors = 0 then Inr []
      else
        (case Marshal cursors of
           Inl err \<Rightarrow> Inl err
         | Inr encoded \<Rightarrow> Inr (EncodeToString encoded)))"


subsection \<open>The resolver\<close>

text \<open>
  The types the resolver takes from other packages, with the fields it reads. A
  location and an LSP range are opaque to it (\<open>'loc\<close>, \<open>'rng\<close>).
\<close>

record LSIFUpload =
  ID :: "64 word"

record lsifQueryResolver =
  repoID :: "32 word"
  commit :: string
  path :: string
  uploads :: "LSIFUpload list"

record LSIFQueryPositionArgs =
  args_Line :: "32 word"
  args_Character :: "32 word"

record LSIFPagedQueryPositionArgs = LSIFQueryPositionArgs +
  First :: "32 word option"
  After :: "string option"

text \<open>The anonymous option structs of the three calls.\<close>

record PositionOpts =
  RepoID :: "32 word"
  Commit :: string
  Path :: string
  Line :: "32 word"
  Character :: "32 word"
  UploadID :: "64 word"

record ReferencesOpts = PositionOpts +
  Limit :: "32 word option"
  Cursor :: "string option"

record 'loc locationConnectionResolver =
  locations :: "'loc list"
  endCursor :: string

record 'rng hoverResolver =
  hover_text :: string
  lspRange :: "'rng"

text \<open>
  \<^verbatim>\<open>client.DefaultClient\<close> is the LSIF server's HTTP client, outside this package: the
  model takes it as a parameter, a function from the options of a call to what the call
  returns. Each operation returns, next to its result, the calls it made, in order.
\<close>

record ('loc, 'rng) Client =
  ClientDefinitions :: "PositionOpts \<Rightarrow> error + 'loc list \<times> string"
  ClientReferences :: "ReferencesOpts \<Rightarrow> error + 'loc list \<times> string"
  ClientHover :: "PositionOpts \<Rightarrow> error + string \<times> 'rng"

definition positionOpts ::
  "lsifQueryResolver \<Rightarrow> 'a LSIFQueryPositionArgs_scheme \<Rightarrow> LSIFUpload \<Rightarrow> PositionOpts" where
  "positionOpts r args upload =
     \<lparr>RepoID = repoID r, Commit = commit r, Path = path r, Line = args_Line args,
      Character = args_Character args, UploadID = ID upload\<rparr>"

definition referencesOpts ::
  "lsifQueryResolver \<Rightarrow> LSIFPagedQueryPositionArgs \<Rightarrow> cursors \<Rightarrow> LSIFUpload \<Rightarrow> ReferencesOpts" where
  "referencesOpts r args nextURLs upload =
     \<lparr>RepoID = repoID r, Commit = commit r, Path = path r, Line = args_Line args,
      Character = args_Character args, UploadID = ID upload,
      Limit = (if First args \<noteq> None then First args else None),
      Cursor = (case map_of nextURLs (ID upload) of Some nextURL \<Rightarrow> Some nextURL | None \<Rightarrow> None)\<rparr>"

fun definitionsLoop ::
  "('loc, 'rng) Client \<Rightarrow> lsifQueryResolver \<Rightarrow> LSIFQueryPositionArgs \<Rightarrow> LSIFUpload list
     \<Rightarrow> 'loc list \<Rightarrow> PositionOpts list \<times> (error + 'loc list)" where
  "definitionsLoop cl r args [] allLocations = ([], Inr allLocations)"
| "definitionsLoop cl r args (upload # rest) allLocations =
     (let opts = positionOpts r args upload in
      case ClientDefinitions cl opts of
        Inl err \<Rightarrow> ([opts], Inl err)
      | Inr (locs, _) \<Rightarrow>
          (case definitionsLoop cl r args rest (allLocations @ locs) of
             (calls, res) \<Rightarrow> (opts # calls, res)))"

definition Definitions ::
  "('loc, 'rng) Client \<Rightarrow> lsifQueryResolver \<Rightarrow> LSIFQueryPositionArgs
     \<Rightarrow> PositionOpts list \<times> (error + 'loc locationConnectionResolver)" where
  "Definitions cl r args =
     (case definitionsLoop cl r args (uploads r) [] of
        (calls, Inl err) \<Rightarrow> (calls, Inl err)
      | (calls, Inr allLocations) \<Rightarrow> (calls, Inr \<lparr>locations = allLocations, endCursor = []\<rparr>))"

fun referencesLoop ::
  "('loc, 'rng) Client \<Rightarrow> lsifQueryResolver \<Rightarrow> LSIFPagedQueryPositionArgs \<Rightarrow> cursors
     \<Rightarrow> LSIFUpload list \<Rightarrow> 'loc list \<Rightarrow> cursors
     \<Rightarrow> ReferencesOpts list \<times> (error + 'loc list \<times> cursors)" where
  "referencesLoop cl r args nextURLs [] allLocations newCursors =
     ([], Inr (allLocations, newCursors))"
| "referencesLoop cl r args nextURLs (upload # rest) allLocations newCursors =
     (let opts = referencesOpts r args nextURLs upload in
      case ClientReferences cl opts of
        Inl err \<Rightarrow> ([opts], Inl err)
      | Inr (locs, nextURL) \<Rightarrow>
          (case referencesLoop cl r args nextURLs rest (allLocations @ locs)
                  (if nextURL \<noteq> [] then mapassign (ID upload) nextURL newCursors else newCursors) of
             (calls, res) \<Rightarrow> (opts # calls, res)))"

definition References ::
  "('loc, 'rng) Client \<Rightarrow> lsifQueryResolver \<Rightarrow> LSIFPagedQueryPositionArgs
     \<Rightarrow> ReferencesOpts list \<times> (error + 'loc locationConnectionResolver)" where
  "References cl r args =
     (case readCursor (After args) of
        Inl err \<Rightarrow> ([], Inl err)
      | Inr nextURLs \<Rightarrow>
          (case referencesLoop cl r args nextURLs (uploads r) [] [] of
             (calls, Inl err) \<Rightarrow> (calls, Inl err)
           | (calls, Inr (allLocations, newCursors)) \<Rightarrow>
               (case makeCursor newCursors of
                  Inl err \<Rightarrow> (calls, Inl err)
                | Inr end_cursor \<Rightarrow>
                    (calls, Inr \<lparr>locations = allLocations, endCursor = end_cursor\<rparr>))))"

fun hoverLoop ::
  "('loc, 'rng) Client \<Rightarrow> lsifQueryResolver \<Rightarrow> LSIFQueryPositionArgs \<Rightarrow> LSIFUpload list
     \<Rightarrow> PositionOpts list \<times> (error + 'rng hoverResolver option)" where
  "hoverLoop cl r args [] = ([], Inr None)"
| "hoverLoop cl r args (upload # rest) =
     (let opts = positionOpts r args upload in
      case ClientHover cl opts of
        Inl err \<Rightarrow> ([opts], Inl err)
      | Inr (txt, rng) \<Rightarrow>
          if txt \<noteq> [] then ([opts], Inr (Some \<lparr>hover_text = txt, lspRange = rng\<rparr>))
          else (case hoverLoop cl r args rest of (calls, res) \<Rightarrow> (opts # calls, res)))"

definition Hover ::
  "('loc, 'rng) Client \<Rightarrow> lsifQueryResolver \<Rightarrow> LSIFQueryPositionArgs
     \<Rightarrow> PositionOpts list \<times> (error + 'rng hoverResolver option)" where
  "Hover cl r args = hoverLoop cl r args (uploads r)"


section \<open>Properties of the loops\<close>

text \<open>
  The next-page token the client returns for upload \<open>k\<close> on a page: the options of a
  call depend on the upload through its \<^verbatim>\<open>ID\<close> only.
\<close>

definition nextURLOf :: "('loc, 'rng) Client \<Rightarrow> lsifQueryResolver \<Rightarrow> LSIFPagedQueryPositionArgs \<Rightarrow> cursors \<Rightarrow> 64 word \<Rightarrow> string" where
  "nextURLOf cl r args nx k = (case ClientReferences cl (referencesOpts r args nx \<lparr>ID = k\<rparr>) of Inr (locs, t) \<Rightarrow> t | Inl e \<Rightarrow> [])"

lemma map_of_mapassign: "map_of (mapassign k v m) = (map_of m)(k \<mapsto> v)"
  by (induction m) (auto simp: fun_eq_iff)

lemma fst_set_mapassign: "fst ` set (mapassign k v m) = insert k (fst ` set m)"
  by (induction m) auto

lemma distinct_mapassign: "distinct (map fst m) \<Longrightarrow> distinct (map fst (mapassign k v m))"
proof (induction m)
  case Nil
  then show ?case by simp
next
  case (Cons p ps)
  have "fst p \<noteq> k \<Longrightarrow> fst p \<notin> fst ` set (mapassign k v ps)"
    using Cons.prems by (simp add: fst_set_mapassign)
  with Cons show ?case by auto
qed

lemma definitionsLoop_ok:
  assumes "\<And>u. u \<in> set us \<Longrightarrow> ClientDefinitions cl (positionOpts r args u) = Inr (locs u, meta u)"
  shows "definitionsLoop cl r args us acc = (map (positionOpts r args) us, Inr (acc @ concat (map locs us)))"
  using assms by (induction us arbitrary: acc) auto

lemma definitionsLoop_failfast:
  "definitionsLoop cl r args us acc = (calls, res) \<Longrightarrow> opts \<in> set calls
    \<Longrightarrow> ClientDefinitions cl opts = Inl e \<Longrightarrow> res = Inl e"
  by (induction us arbitrary: acc calls) (auto simp: Let_def split: sum.splits prod.splits)

lemma referencesLoop_failfast:
  "referencesLoop cl r args nx us acc nc = (calls, res) \<Longrightarrow> opts \<in> set calls
    \<Longrightarrow> ClientReferences cl opts = Inl e \<Longrightarrow> res = Inl e"
  by (induction us arbitrary: acc nc calls) (auto simp: Let_def split: sum.splits prod.splits if_splits)

lemma hoverLoop_failfast:
  "hoverLoop cl r args us = (calls, res) \<Longrightarrow> opts \<in> set calls
    \<Longrightarrow> ClientHover cl opts = Inl e \<Longrightarrow> res = Inl e"
  by (induction us arbitrary: calls) (auto simp: Let_def split: sum.splits prod.splits if_splits)

lemma hoverLoop_all_empty:
  assumes "\<And>u. u \<in> set us \<Longrightarrow> \<exists>rng. ClientHover cl (positionOpts r args u) = Inr ([], rng)"
  shows "hoverLoop cl r args us = (map (positionOpts r args) us, Inr None)"
  using assms by (induction us) (fastforce simp: Let_def)+

lemma hoverLoop_first:
  assumes "\<And>u. u \<in> set pre \<Longrightarrow> \<exists>rng. ClientHover cl (positionOpts r args u) = Inr ([], rng)"
    and "ClientHover cl (positionOpts r args u) = Inr (txt, rng)" and "txt \<noteq> []"
  shows "hoverLoop cl r args (pre @ u # post)
     = (map (positionOpts r args) (pre @ [u]), Inr (Some \<lparr>hover_text = txt, lspRange = rng\<rparr>))"
  using assms by (induction pre) (fastforce simp: Let_def)+

lemma referencesLoop_calls:
  "referencesLoop cl r args nx us acc nc = (calls, res) \<Longrightarrow>
     (\<exists>n. calls = map (referencesOpts r args nx) (take n us)) \<and>
     ((\<exists>v. res = Inr v) \<longrightarrow> calls = map (referencesOpts r args nx) us)"
proof (induction us arbitrary: acc nc calls)
  case Nil
  then show ?case by simp
next
  case (Cons u us)
  show ?case
  proof (cases "ClientReferences cl (referencesOpts r args nx u)")
    case (Inl e)
    with Cons.prems have "calls = [referencesOpts r args nx u]" "res = Inl e" by (auto simp: Let_def)
    then have "calls = map (referencesOpts r args nx) (take 1 (u # us))" by simp
    with \<open>res = Inl e\<close> show ?thesis by blast
  next
    case (Inr p)
    obtain locs tok where p: "p = (locs, tok)" by (cases p)
    obtain calls' where c: "referencesLoop cl r args nx us (acc @ locs)
        (if tok \<noteq> [] then mapassign (ID u) tok nc else nc) = (calls', res)"
      and calls: "calls = referencesOpts r args nx u # calls'"
      using Cons.prems Inr p by (auto simp: Let_def split: prod.splits)
    from Cons.IH[OF c] obtain n where n: "calls' = map (referencesOpts r args nx) (take n us)"
      and full: "(\<exists>v. res = Inr v) \<longrightarrow> calls' = map (referencesOpts r args nx) us" by blast
    from n calls have "calls = map (referencesOpts r args nx) (take (Suc n) (u # us))" by simp
    with full calls show ?thesis by (metis list.simps(9))
  qed
qed

lemma referencesOpts_ID:
  "ID u = ID u' \<Longrightarrow> referencesOpts r args nx u = referencesOpts r args nx u'"
  by (simp add: referencesOpts_def)

lemma referencesLoop_Cons_Inr:
  "referencesLoop cl r args nx (u # us) acc nc = (calls, Inr v) \<Longrightarrow>
   \<exists>locs tok calls'. ClientReferences cl (referencesOpts r args nx u) = Inr (locs, tok) \<and>
     referencesLoop cl r args nx us (acc @ locs) (if tok \<noteq> [] then mapassign (ID u) tok nc else nc) = (calls', Inr v) \<and>
     calls = referencesOpts r args nx u # calls'"
  by (cases "ClientReferences cl (referencesOpts r args nx u)")
     (auto simp: Let_def split: prod.splits split del: if_split)

lemma referencesLoop_cursors:
  "referencesLoop cl r args nx us acc nc = (calls, Inr (all, newCursors)) \<Longrightarrow>
   map_of newCursors k =
     (if k \<in> ID ` set us \<and> nextURLOf cl r args nx k \<noteq> [] then Some (nextURLOf cl r args nx k)
      else map_of nc k)"
proof (induction us arbitrary: acc nc calls)
  case Nil
  then show ?case by simp
next
  case (Cons u us)
  from referencesLoop_Cons_Inr[OF Cons.prems]
  obtain locs tok calls' where resp: "ClientReferences cl (referencesOpts r args nx u) = Inr (locs, tok)"
    and c: "referencesLoop cl r args nx us (acc @ locs) (if tok \<noteq> [] then mapassign (ID u) tok nc else nc)
             = (calls', Inr (all, newCursors))"
    by blast
  have "referencesOpts r args nx \<lparr>ID = ID u\<rparr> = referencesOpts r args nx u"
    by (rule referencesOpts_ID) simp
  with resp have tok: "nextURLOf cl r args nx (ID u) = tok" by (simp add: nextURLOf_def)
  show ?case
  proof (cases "ID u = k")
    case True
    with Cons.IH[OF c] tok show ?thesis by (simp add: map_of_mapassign)
  next
    case False
    with Cons.IH[OF c] show ?thesis by (simp add: map_of_mapassign)
  qed
qed

lemma referencesLoop_keys:
  "referencesLoop cl r args nx us acc nc = (calls, Inr (all, newCursors)) \<Longrightarrow>
   fst ` set newCursors \<subseteq> fst ` set nc \<union> ID ` set us"
proof (induction us arbitrary: acc nc calls)
  case Nil
  then show ?case by simp
next
  case (Cons u us)
  from referencesLoop_Cons_Inr[OF Cons.prems]
  obtain locs tok calls' where
    c: "referencesLoop cl r args nx us (acc @ locs) (if tok \<noteq> [] then mapassign (ID u) tok nc else nc)
             = (calls', Inr (all, newCursors))"
    by blast
  have "fst ` set (if tok \<noteq> [] then mapassign (ID u) tok nc else nc) \<subseteq> insert (ID u) (fst ` set nc)"
    by (auto simp: fst_set_mapassign)
  with Cons.IH[OF c] show ?case by auto
qed

lemma referencesLoop_distinct:
  "referencesLoop cl r args nx us acc nc = (calls, Inr (all, newCursors)) \<Longrightarrow>
   distinct (map fst nc) \<Longrightarrow> distinct (map fst newCursors)"
proof (induction us arbitrary: acc nc calls)
  case Nil
  then show ?case by simp
next
  case (Cons u us)
  from referencesLoop_Cons_Inr[OF Cons.prems(1)]
  obtain locs tok calls' where
    c: "referencesLoop cl r args nx us (acc @ locs) (if tok \<noteq> [] then mapassign (ID u) tok nc else nc)
             = (calls', Inr (all, newCursors))"
    by blast
  have "distinct (map fst (if tok \<noteq> [] then mapassign (ID u) tok nc else nc))"
    using Cons.prems(2) by (simp add: distinct_mapassign)
  with Cons.IH[OF c] show ?case by simp
qed

lemma referencesLoop_nextURLs_cong:
  "(\<And>u. u \<in> set us \<Longrightarrow> map_of nx (ID u) = map_of nx' (ID u)) \<Longrightarrow>
   referencesLoop cl r args nx us acc nc = referencesLoop cl r args nx' us acc nc"
proof (induction us arbitrary: acc nc)
  case Nil
  then show ?case by simp
next
  case (Cons u us)
  have o: "referencesOpts r args nx u = referencesOpts r args nx' u"
    using Cons.prems[of u] by (simp add: referencesOpts_def)
  have "\<And>acc nc. referencesLoop cl r args nx us acc nc = referencesLoop cl r args nx' us acc nc"
    using Cons.IH Cons.prems by simp
  with o show ?case by (simp add: Let_def split del: if_split cong: sum.case_cong)
qed


lemma EncodeToString_Nil_iff: "EncodeToString s = [] \<longleftrightarrow> s = []"
  by (induction s rule: EncodeToString.induct) (simp_all add: Let_def)

lemma makeCursor_Nil_iff: "makeCursor m = Inr [] \<longleftrightarrow> m = []"
  by (cases m) (simp_all add: makeCursor_def Marshal_def EncodeToString_Nil_iff)

lemma makeCursor_total: "\<exists>s. makeCursor m = Inr s"
  by (simp add: makeCursor_def Marshal_def)

lemma nextURLOf_resp:
  "ClientReferences cl (referencesOpts r args nx u) = Inr (locs, t) \<Longrightarrow> nextURLOf cl r args nx (ID u) = t"
proof -
  assume a: "ClientReferences cl (referencesOpts r args nx u) = Inr (locs, t)"
  have "referencesOpts r args nx \<lparr>ID = ID u\<rparr> = referencesOpts r args nx u"
    by (rule referencesOpts_ID) simp
  with a show ?thesis by (simp add: nextURLOf_def)
qed

lemma referencesLoop_success_all:
  "referencesLoop cl r args nx us acc nc = (calls, Inr v) \<Longrightarrow>
   \<forall>u\<in>set us. \<exists>locs tok. ClientReferences cl (referencesOpts r args nx u) = Inr (locs, tok)"
proof (induction us arbitrary: acc nc calls)
  case Nil
  then show ?case by simp
next
  case (Cons u us)
  from referencesLoop_Cons_Inr[OF Cons.prems]
  obtain locs tok calls' where resp: "ClientReferences cl (referencesOpts r args nx u) = Inr (locs, tok)"
    and c: "referencesLoop cl r args nx us (acc @ locs) (if tok \<noteq> [] then mapassign (ID u) tok nc else nc)
             = (calls', Inr v)"
    by blast
  from Cons.IH[OF c] resp show ?case by auto
qed

lemma References_success:
  assumes "readCursor (After args) = Inr nextURLs" and "References cl r args = (calls, Inr page)"
  shows "\<exists>newCursors. referencesLoop cl r args nextURLs (uploads r) [] [] = (calls, Inr (locations page, newCursors))
           \<and> makeCursor newCursors = Inr (endCursor page)"
proof -
  obtain calls' res where l: "referencesLoop cl r args nextURLs (uploads r) [] [] = (calls', res)"
    by (cases "referencesLoop cl r args nextURLs (uploads r) [] []")
  show ?thesis
  proof (cases res)
    case (Inl e)
    with assms l show ?thesis by (simp add: References_def)
  next
    case (Inr v)
    obtain al nc where v: "v = (al, nc)" by (cases v)
    obtain s where s: "makeCursor nc = Inr s" using makeCursor_total by blast
    from assms l Inr v s have "calls = calls'" "page = \<lparr>locations = al, endCursor = s\<rparr>"
      by (simp_all add: References_def)
    with l Inr v s show ?thesis by simp
  qed
qed

lemma referencesOpts_After:
  "referencesOpts r (args\<lparr>After := a\<rparr>) nx u = referencesOpts r args nx u"
  by (simp add: referencesOpts_def)

lemma referencesLoop_After:
  "referencesLoop cl r (args\<lparr>After := a\<rparr>) nx us acc nc = referencesLoop cl r args nx us acc nc"
  by (induction us arbitrary: acc nc)
     (simp_all add: referencesOpts_After Let_def split del: if_split cong: sum.case_cong)




section \<open>Properties of the codec\<close>

subsection \<open>base64: decoding what was encoded\<close>

lemma index_of_nth: "distinct xs \<Longrightarrow> i < length xs \<Longrightarrow> index_of (xs ! i) xs = Some i"
proof (induction xs arbitrary: i)
  case Nil
  then show ?case by simp
next
  case (Cons x xs)
  show ?case
  proof (cases i)
    case 0
    then show ?thesis by simp
  next
    case (Suc j)
    with Cons.prems have "xs ! j \<noteq> x" by auto
    with Cons Suc show ?thesis by auto
  qed
qed

lemma distinct_encodeStd: "distinct encodeStd"
  by (simp add: encodeStd_def)

lemma length_encodeStd: "length encodeStd = 64"
  by (simp add: encodeStd_def)

lemma decodeMap_encode6: "decodeMap (encode6 v) = Some (v mod 64)"
  unfolding decodeMap_def encode6_def
  by (rule index_of_nth[OF distinct_encodeStd]) (simp add: length_encodeStd)

lemma decodeMap_padChar: "decodeMap padChar = None"
  by (simp add: decodeMap_def padChar_def encodeStd_def)

lemma sextets:
  fixes v :: nat
  assumes "v < 2 ^ 24"
  shows "quantumVal (v div 2 ^ 18 mod 64) (v div 2 ^ 12 mod 64) (v div 2 ^ 6 mod 64) (v mod 64) = v"
proof -
  have a: "v div 262144 mod 64 = v div 262144" using assms by (simp add: less_mult_imp_div_less)
  have b: "v div 4096 = (v div 262144) * 64 + v div 4096 mod 64"
    using div_mult_mod_eq[of "v div 4096" 64] by (simp add: div_mult2_eq[symmetric])
  have c: "v div 64 = (v div 4096) * 64 + v div 64 mod 64"
    using div_mult_mod_eq[of "v div 64" 64] by (simp add: div_mult2_eq[symmetric])
  have d: "v = (v div 64) * 64 + v mod 64"
    using div_mult_mod_eq[of v 64] by simp
  have "v div 262144 * 262144 + v div 4096 mod 64 * 4096 + v div 64 mod 64 * 64 + v mod 64 = v"
    using b c d by linarith
  with a show ?thesis unfolding quantumVal_def by simp
qed

lemma quantum3:
  fixes a b c :: nat
  assumes "a < 256" "b < 256" "c < 256"
  defines "v \<equiv> a * 2 ^ 16 + b * 2 ^ 8 + c"
  shows "quantumBytes [v div 2 ^ 18 mod 64, v div 2 ^ 12 mod 64, v div 2 ^ 6 mod 64, v mod 64]
          = [char_of a, char_of b, char_of c]"
proof -
  define w where "w = a * 256 + b"
  define x where "x = b * 256 + c"
  have vw: "v = w * 256 + c" by (simp add: v_def w_def)
  have vx: "v = a * 65536 + x" by (simp add: v_def x_def)
  have xl: "x < 65536" using assms by (simp add: x_def)
  have "v < 2 ^ 24" using assms by (simp add: v_def)
  from sextets[OF this]
  have q: "quantumVal (v div 2 ^ 18 mod 64) (v div 2 ^ 12 mod 64) (v div 2 ^ 6 mod 64) (v mod 64) = v" .
  have 1: "v div 65536 = a" unfolding vx using xl by simp
  have "v div 256 = w" unfolding vw using assms(3) by simp
  then have 2: "(v div 256) mod 256 = b" using assms(2) by (simp add: w_def)
  have 3: "v mod 256 = c" unfolding vw using assms(3) by simp
  have "char_of (v div 256) = char_of ((v div 256) mod 256)" by simp
  moreover have "char_of v = char_of (v mod 256)" by simp
  ultimately show ?thesis using q 1 2 3 assms(2,3) by simp
qed

lemma quantum2:
  fixes a b :: nat
  assumes "a < 256" "b < 256"
  defines "v \<equiv> a * 2 ^ 16 + b * 2 ^ 8"
  shows "quantumBytes [v div 2 ^ 18 mod 64, v div 2 ^ 12 mod 64, v div 2 ^ 6 mod 64]
          = [char_of a, char_of b]"
proof -
  define w where "w = a * 256 + b"
  define x where "x = b * 256"
  have vw: "v = w * 256" by (simp add: v_def w_def)
  have vx: "v = a * 65536 + x" by (simp add: v_def x_def)
  have xl: "x < 65536" using assms by (simp add: x_def)
  have "v < 2 ^ 24" using assms by (simp add: v_def)
  from sextets[OF this]
  have q: "quantumVal (v div 2 ^ 18 mod 64) (v div 2 ^ 12 mod 64) (v div 2 ^ 6 mod 64) (v mod 64) = v" .
  have "v mod 64 = 0" unfolding vw by simp
  with q have q': "quantumVal (v div 2 ^ 18 mod 64) (v div 2 ^ 12 mod 64) (v div 2 ^ 6 mod 64) 0 = v" by simp
  have 1: "v div 65536 = a" unfolding vx using xl by simp
  have "v div 256 = w" unfolding vw by simp
  then have 2: "(v div 256) mod 256 = b" using assms(2) by (simp add: w_def)
  have "char_of (v div 256) = char_of ((v div 256) mod 256)" by simp
  then show ?thesis using q' 1 2 by simp
qed

lemma quantum1:
  fixes a :: nat
  assumes "a < 256"
  defines "v \<equiv> a * 2 ^ 16"
  shows "quantumBytes [v div 2 ^ 18 mod 64, v div 2 ^ 12 mod 64] = [char_of a]"
proof -
  have "v < 2 ^ 24" using assms by (simp add: v_def)
  from sextets[OF this]
  have q: "quantumVal (v div 2 ^ 18 mod 64) (v div 2 ^ 12 mod 64) (v div 2 ^ 6 mod 64) (v mod 64) = v" .
  have "v = (a * 1024) * 64" by (simp add: v_def)
  then have "v mod 64 = 0" by simp
  moreover have "v = (a * 16) * 4096" by (simp add: v_def)
  then have "v div 64 mod 64 = 0" by simp
  ultimately have q': "quantumVal (v div 2 ^ 18 mod 64) (v div 2 ^ 12 mod 64) 0 0 = v" using q by simp
  have 1: "v div 65536 = a" by (simp add: v_def)
  show ?thesis using q' 1 by simp
qed

lemma skipNewlines_pad [simp]: "skipNewlines (padChar # s) = padChar # s"
  by (simp add: padChar_def isNewline_def)

lemma isNewline_padChar [simp]: "\<not> isNewline padChar"
  by (simp add: padChar_def isNewline_def)

lemma DecodeString_EncodeToString: "DecodeString (EncodeToString s) = Inr s"
  unfolding DecodeString_def
proof (induction s rule: EncodeToString.induct)
  case 1
  then show ?case by simp
next
  case (2 a)
  have "of_char a < (256::nat)" by simp
  from quantum1[OF this] show ?case
    by (simp add: Let_def decodeMap_encode6 decodeMap_padChar)
next
  case (3 a b)
  have "of_char a < (256::nat)" "of_char b < (256::nat)" by simp_all
  from quantum2[OF this] show ?case
    by (simp add: Let_def decodeMap_encode6 decodeMap_padChar)
next
  case (4 a b c src)
  have "of_char a < (256::nat)" "of_char b < (256::nat)" "of_char c < (256::nat)" by simp_all
  from quantum3[OF this] 4 show ?case
    by (simp add: Let_def decodeMap_encode6 decodeMap_padChar)
qed


subsection \<open>strconv: parsing what was formatted\<close>

lemma of_char_digit: "d < 10 \<Longrightarrow> of_char (char_of (48 + d :: nat)) = (48 + d :: nat)"
  by simp

lemma isDigit_digit: "d < 10 \<Longrightarrow> isDigit (char_of (48 + d :: nat))"
  by (simp add: isDigit_def)

lemma parseDigits_append:
  "parseDigits a (xs @ ys) = (case parseDigits a xs of None \<Rightarrow> None | Some b \<Rightarrow> parseDigits b ys)"
  by (induction xs arbitrary: a) auto

lemma parseDigits_formatUint: "parseDigits 0 (formatUint n) = Some n"
proof (induction n rule: formatUint.induct)
  case (1 u)
  show ?case
  proof (cases "u < 10")
    case True
    then show ?thesis by (subst formatUint.simps) (simp add: isDigit_digit)
  next
    case False
    then have ih: "parseDigits 0 (formatUint (u div 10)) = Some (u div 10)" using 1 by simp
    have d: "u mod 10 < 10" by simp
    show ?thesis
      using False ih isDigit_digit[OF d]
      by (subst formatUint.simps) (simp add: parseDigits_append)
  qed
qed

lemma formatUint_hd: "\<exists>c cs. formatUint n = c # cs \<and> isDigit c"
proof (induction n rule: formatUint.induct)
  case (1 u)
  show ?case
  proof (cases "u < 10")
    case True
    then show ?thesis by (subst formatUint.simps) (simp add: isDigit_digit)
  next
    case False
    with 1 obtain c cs where "formatUint (u div 10) = c # cs" "isDigit c" by auto
    with False show ?thesis by (subst formatUint.simps) simp
  qed
qed

lemma isDigit_not_sign: "isDigit c \<Longrightarrow> c \<noteq> CHR ''+'' \<and> c \<noteq> CHR ''-''"
  by (auto simp: isDigit_def)

lemma ParseInt_FormatInt:
  assumes "- (2 ^ 63) \<le> i" "i < 2 ^ 63"
  shows "ParseInt (FormatInt i) = Some i"
proof (cases "i < 0")
  case True
  obtain c cs where f: "formatUint (nat (- i)) = c # cs" using formatUint_hd by blast
  have p: "parseDigits 0 (c # cs) = Some (nat (- i))" using parseDigits_formatUint[of "nat (- i)"] f by simp
  have "nat (- i) \<le> 2 ^ 63" using assms True by (simp add: nat_le_iff)
  then show ?thesis using True f p
    by (simp add: ParseInt_def FormatInt_def ParseUint_def del: parseDigits.simps)
next
  case False
  obtain c cs where f: "formatUint (nat i) = c # cs" and d: "isDigit c" using formatUint_hd by blast
  have p: "parseDigits 0 (c # cs) = Some (nat i)" using parseDigits_formatUint[of "nat i"] f by simp
  have "nat i < 2 ^ 63" using assms False by (simp add: nat_less_iff)
  then show ?thesis using False f p isDigit_not_sign[OF d]
    by (simp add: ParseInt_def FormatInt_def ParseUint_def del: parseDigits.simps)
qed

lemma ParseInt_FormatInt_sint: "ParseInt (FormatInt (sint (k :: 64 word))) = Some (sint k)"
proof -
  have "- (2 ^ 63) \<le> sint k" using sint_ge[of k] by simp
  moreover have "sint k < 2 ^ 63" using sint_lt[of k] by simp
  ultimately show ?thesis by (rule ParseInt_FormatInt)
qed


subsection \<open>UTF-8 and JSON strings: unquoting what was quoted\<close>

lemma split_byte:
  fixes p :: nat
  assumes "a \<le> p" "p < a + m" "m dvd a"
  shows "p mod m = p - a"
proof -
  from assms(3) obtain k where k: "a = m * k" by (auto simp: dvd_def)
  define x where "x = p - a"
  have p: "p = m * k + x" and x: "x < m" using assms k by (simp_all add: x_def)
  show "p mod m = p - a" using x unfolding p k by simp
qed

lemma divmod_step:
  fixes q m r :: nat
  assumes "r < m"
  shows "(q * m + r) div m = q" "(q * m + r) mod m = r"
  using assms by simp_all

lemma enc2:
  fixes x y :: nat
  assumes "2 \<le> x" "x < 32" "y < 64"
  shows "EncodeRune (x * 64 + y) = [char_of (192 + x), char_of (128 + y)]"
proof -
  define v where "v = x * 64 + y"
  have r: "128 \<le> v" "v \<le> 2047" using assms by (simp_all add: v_def)
  have d: "v div 64 = x" "v mod 64 = y" using assms by (simp_all add: v_def)
  show ?thesis unfolding v_def[symmetric] using r d by (simp add: EncodeRune_def)
qed

lemma enc3:
  fixes x y z :: nat
  assumes "x < 16" "y < 64" "z < 64"
    and lo: "x = 0 \<longrightarrow> 32 \<le> y" and sur: "x = 13 \<longrightarrow> y < 32"
  shows "EncodeRune (x * 4096 + y * 64 + z) = [char_of (224 + x), char_of (128 + y), char_of (128 + z)]"
proof -
  define w where "w = y * 64 + z"
  define v where "v = x * 4096 + w"
  have wl: "w < 4096" using assms by (simp add: w_def)
  have v: "x * 4096 + y * 64 + z = v" by (simp add: v_def w_def)
  have d1: "v div 4096 = x" using wl by (simp add: v_def)
  have "v div 64 = x * 64 + y" using assms by (simp add: v_def w_def)
  then have d2: "v div 64 mod 64 = y" using assms by simp
  have d3: "v mod 64 = z"
  proof -
    define q where "q = x * 64 + y"
    have "v = q * 64 + z" by (simp add: v_def w_def q_def)
    then show ?thesis using divmod_step(2)[OF assms(3), of q] by simp
  qed
  have lo': "2048 \<le> v"
  proof (cases "x = 0")
    case True
    with lo have "32 \<le> y" by simp
    then show ?thesis by (simp add: v_def w_def)
  next
    case False
    then have "1 \<le> x" by simp
    then have "4096 \<le> x * 4096" by simp
    then show ?thesis by (simp add: v_def)
  qed
  have hi: "v \<le> 65535" using assms(1) wl by (simp add: v_def)
  have ns: "\<not> (55296 \<le> v \<and> v \<le> 57343)"
  proof (cases "x < 13")
    case True
    then have "x * 4096 \<le> 12 * 4096" by simp
    with wl show ?thesis by (simp add: v_def)
  next
    case False
    show ?thesis
    proof (cases "x = 13")
      case True
      with sur have "y < 32" by simp
      with assms(3) have "w < 2048" by (simp add: w_def)
      with True show ?thesis by (simp add: v_def)
    next
      case False
      with \<open>\<not> x < 13\<close> have "14 \<le> x" by simp
      then have "14 * 4096 \<le> x * 4096" by simp
      then show ?thesis by (simp add: v_def)
    qed
  qed
  show ?thesis unfolding v using lo' hi ns d1 d2 d3 by (auto simp add: EncodeRune_def)
qed

lemma enc4:
  fixes x y z t :: nat
  assumes "x < 5" "y < 64" "z < 64" "t < 64"
    and lo: "x = 0 \<longrightarrow> 16 \<le> y" and hi: "x = 4 \<longrightarrow> y < 16"
  shows "EncodeRune (x * 262144 + y * 4096 + z * 64 + t)
           = [char_of (240 + x), char_of (128 + y), char_of (128 + z), char_of (128 + t)]"
proof -
  define u where "u = z * 64 + t"
  define w where "w = y * 4096 + u"
  define v where "v = x * 262144 + w"
  have ul: "u < 4096" using assms by (simp add: u_def)
  have wl: "w < 262144" using assms ul by (simp add: w_def)
  have v: "x * 262144 + y * 4096 + z * 64 + t = v" by (simp add: v_def w_def u_def)
  have d1: "v div 262144 = x" using wl by (simp add: v_def)
  have "v = (x * 64 + y) * 4096 + u" by (simp add: v_def w_def)
  then have "v div 4096 = x * 64 + y" using ul by simp
  then have d2: "v div 4096 mod 64 = y" using assms by simp
  define q where "q = (x * 64 + y) * 64 + z"
  have "v = q * 64 + t" by (simp add: v_def w_def u_def q_def)
  then have e: "v div 64 = q" and d4: "v mod 64 = t"
    using divmod_step[OF assms(4), of q] by simp_all
  define q' where "q' = x * 64 + y"
  have "q = q' * 64 + z" by (simp add: q_def q'_def)
  then have d3: "v div 64 mod 64 = z" using e divmod_step(2)[OF assms(3), of q'] by simp
  have lo': "65536 \<le> v"
  proof (cases "x = 0")
    case True
    with lo have "16 \<le> y" by simp
    then show ?thesis by (simp add: v_def w_def)
  next
    case False
    then have "1 \<le> x" by simp
    then have "262144 \<le> x * 262144" by simp
    then show ?thesis by (simp add: v_def)
  qed
  have hi': "v \<le> 1114111"
  proof (cases "x = 4")
    case True
    with hi have "y < 16" by simp
    with ul have "w < 65536" by (simp add: w_def)
    with True show ?thesis by (simp add: v_def)
  next
    case False
    with assms(1) have "x \<le> 3" by simp
    then have "x * 262144 \<le> 3 * 262144" by simp
    with wl show ?thesis by (simp add: v_def)
  qed
  have ns: "\<not> (55296 \<le> v \<and> v \<le> 57343)" using lo' by simp
  show ?thesis unfolding v using lo' hi' ns d1 d2 d3 d4 by (auto simp add: EncodeRune_def)
qed


lemma DecodeRune_bad_first:
  "0x80 \<le> (of_char b :: nat) \<Longrightarrow> (of_char b :: nat) < 0xC2 \<or> 0xF4 < (of_char b :: nat)
   \<Longrightarrow> DecodeRune (b # s) = (RuneError, 1)"
  by (auto simp: DecodeRune_def Let_def)

lemma DecodeRune_2:
  assumes "0xC2 \<le> (of_char b :: nat)" "(of_char b :: nat) < 0xE0"
  shows "DecodeRune [b] = (RuneError, 1)"
    and "DecodeRune (b # c1 # r) =
      (if 0x80 \<le> (of_char c1 :: nat) \<and> (of_char c1 :: nat) \<le> 0xBF
       then ((of_char b mod 32) * 64 + of_char c1 mod 64, 2) else (RuneError, 1))"
  using assms by (auto simp: DecodeRune_def Let_def)

lemma DecodeRune_3:
  assumes "0xE0 \<le> (of_char b :: nat)" "(of_char b :: nat) < 0xF0"
  shows "DecodeRune [b] = (RuneError, 1)"
    and "DecodeRune [b, c1] = (RuneError, 1)"
    and "DecodeRune (b # c1 # c2 # r) =
      (if (if (of_char b :: nat) = 0xE0 then 0xA0 else 0x80) \<le> (of_char c1 :: nat)
          \<and> (of_char c1 :: nat) \<le> (if (of_char b :: nat) = 0xED then 0x9F else 0xBF)
          \<and> 0x80 \<le> (of_char c2 :: nat) \<and> (of_char c2 :: nat) \<le> 0xBF
       then ((of_char b mod 16) * 4096 + (of_char c1 mod 64) * 64 + of_char c2 mod 64, 3)
       else (RuneError, 1))"
  using assms by (auto simp: DecodeRune_def Let_def)

lemma DecodeRune_4:
  assumes "0xF0 \<le> (of_char b :: nat)" "(of_char b :: nat) \<le> 0xF4"
  shows "DecodeRune [b] = (RuneError, 1)"
    and "DecodeRune [b, c1] = (RuneError, 1)"
    and "DecodeRune [b, c1, c2] = (RuneError, 1)"
    and "DecodeRune (b # c1 # c2 # c3 # r) =
      (if (if (of_char b :: nat) = 0xF0 then 0x90 else 0x80) \<le> (of_char c1 :: nat)
          \<and> (of_char c1 :: nat) \<le> (if (of_char b :: nat) = 0xF4 then 0x8F else 0xBF)
          \<and> 0x80 \<le> (of_char c2 :: nat) \<and> (of_char c2 :: nat) \<le> 0xBF
          \<and> 0x80 \<le> (of_char c3 :: nat) \<and> (of_char c3 :: nat) \<le> 0xBF
       then ((of_char b mod 8) * 262144 + (of_char c1 mod 64) * 4096 + (of_char c2 mod 64) * 64
               + of_char c3 mod 64, 4)
       else (RuneError, 1))"
  using assms by (auto simp: DecodeRune_def Let_def)


lemma char_of_of_char_nat: "char_of (of_char c :: nat) = c"
  by simp

lemma DecodeRune_valid:
  assumes hi: "0x80 \<le> (of_char b :: nat)"
    and dec: "DecodeRune (b # s) = (c, n)"
    and ok: "\<not> (c = RuneError \<and> n = 1)"
  shows "2 \<le> n \<and> n - 1 \<le> length s \<and> EncodeRune c = b # take (n - 1) s
         \<and> (\<forall>q. DecodeRune (b # take (n - 1) s @ q) = (c, n))"
proof -
  let ?p0 = "of_char b :: nat"
  have p0: "?p0 < 256" by simp
  consider (bad) "?p0 < 0xC2 \<or> 0xF4 < ?p0" | (two) "0xC2 \<le> ?p0" "?p0 < 0xE0"
    | (three) "0xE0 \<le> ?p0" "?p0 < 0xF0" | (four) "0xF0 \<le> ?p0" "?p0 \<le> 0xF4"
    by linarith
  then show ?thesis
  proof cases
    case bad
    from DecodeRune_bad_first[OF hi bad, of s] dec ok show ?thesis by simp
  next
    case two
    show ?thesis
    proof (cases s)
      case Nil
      with DecodeRune_2(1)[OF two] dec ok show ?thesis by simp
    next
      case (Cons c1 r)
      let ?b1 = "of_char c1 :: nat"
      from dec ok Cons DecodeRune_2(2)[OF two, of c1 r]
      have r1: "0x80 \<le> ?b1" "?b1 \<le> 0xBF" and c: "c = (?p0 mod 32) * 64 + ?b1 mod 64" and n: "n = 2"
        by (auto split: if_splits)
      have x: "?p0 mod 32 = ?p0 - 192" using split_byte[of 192 ?p0 32] two by simp
      have y: "?b1 mod 64 = ?b1 - 128" using split_byte[of 128 ?b1 64] r1 by simp
      have "EncodeRune c = [char_of (192 + (?p0 - 192)), char_of (128 + (?b1 - 128))]"
        unfolding c x y using two r1 by (intro enc2) simp_all
      also have "\<dots> = [b, c1]" using two r1 by simp
      finally have e: "EncodeRune c = [b, c1]" .
      have "\<forall>q. DecodeRune (b # c1 # q) = (c, n)"
        using DecodeRune_2(2)[OF two, of c1] r1 c n by simp
      with e n Cons show ?thesis by simp
    qed
  next
    case three
    show ?thesis
    proof (cases s)
      case Nil
      with DecodeRune_3(1)[OF three] dec ok show ?thesis by simp
    next
      case (Cons c1 r)
      show ?thesis
      proof (cases r)
        case Nil
        with Cons DecodeRune_3(2)[OF three, of c1] dec ok show ?thesis by simp
      next
        case (Cons c2 r')
        let ?b1 = "of_char c1 :: nat"
        let ?b2 = "of_char c2 :: nat"
        note s = \<open>s = c1 # r\<close> \<open>r = c2 # r'\<close>
        from dec ok s DecodeRune_3(3)[OF three, of c1 c2 r']
        have r1: "(if ?p0 = 0xE0 then 0xA0 else 0x80) \<le> ?b1" "?b1 \<le> (if ?p0 = 0xED then 0x9F else 0xBF)"
          and r2: "0x80 \<le> ?b2" "?b2 \<le> 0xBF"
          and c: "c = (?p0 mod 16) * 4096 + (?b1 mod 64) * 64 + ?b2 mod 64" and n: "n = 3"
          by (auto split: if_splits)
        have r1': "0x80 \<le> ?b1" "?b1 \<le> 0xBF" using r1 by (auto split: if_splits)
        have x: "?p0 mod 16 = ?p0 - 224" using split_byte[of 224 ?p0 16] three by simp
        have y: "?b1 mod 64 = ?b1 - 128" using split_byte[of 128 ?b1 64] r1' by simp
        have z: "?b2 mod 64 = ?b2 - 128" using split_byte[of 128 ?b2 64] r2 by simp
        have "EncodeRune c = [char_of (224 + (?p0 - 224)), char_of (128 + (?b1 - 128)), char_of (128 + (?b2 - 128))]"
          unfolding c x y z using three r1 r1' r2 by (intro enc3) (auto split: if_splits)
        also have "\<dots> = [b, c1, c2]" using three r1' r2 by simp
        finally have e: "EncodeRune c = [b, c1, c2]" .
        have "\<forall>q. DecodeRune (b # c1 # c2 # q) = (c, n)"
          using DecodeRune_3(3)[OF three, of c1 c2] r1 r2 c n by simp
        with e n s show ?thesis by simp
      qed
    qed
  next
    case four
    show ?thesis
    proof (cases s)
      case Nil
      with DecodeRune_4(1)[OF four] dec ok show ?thesis by simp
    next
      case (Cons c1 r)
      note s1 = Cons
      show ?thesis
      proof (cases r)
        case Nil
        with s1 DecodeRune_4(2)[OF four, of c1] dec ok show ?thesis by simp
      next
        case (Cons c2 r')
        note s2 = Cons
        show ?thesis
        proof (cases r')
          case Nil
          with s1 s2 DecodeRune_4(3)[OF four, of c1 c2] dec ok show ?thesis by simp
        next
          case (Cons c3 r'')
          let ?b1 = "of_char c1 :: nat"
          let ?b2 = "of_char c2 :: nat"
          let ?b3 = "of_char c3 :: nat"
          note s = s1 s2 Cons
          from dec ok s DecodeRune_4(4)[OF four, of c1 c2 c3 r'']
          have r1: "(if ?p0 = 0xF0 then 0x90 else 0x80) \<le> ?b1" "?b1 \<le> (if ?p0 = 0xF4 then 0x8F else 0xBF)"
            and r2: "0x80 \<le> ?b2" "?b2 \<le> 0xBF" and r3: "0x80 \<le> ?b3" "?b3 \<le> 0xBF"
            and c: "c = (?p0 mod 8) * 262144 + (?b1 mod 64) * 4096 + (?b2 mod 64) * 64 + ?b3 mod 64"
            and n: "n = 4"
            by (auto split: if_splits)
          have r1': "0x80 \<le> ?b1" "?b1 \<le> 0xBF" using r1 by (auto split: if_splits)
          have x: "?p0 mod 8 = ?p0 - 240" using split_byte[of 240 ?p0 8] four by simp
          have y: "?b1 mod 64 = ?b1 - 128" using split_byte[of 128 ?b1 64] r1' by simp
          have z: "?b2 mod 64 = ?b2 - 128" using split_byte[of 128 ?b2 64] r2 by simp
          have t: "?b3 mod 64 = ?b3 - 128" using split_byte[of 128 ?b3 64] r3 by simp
          have "EncodeRune c = [char_of (240 + (?p0 - 240)), char_of (128 + (?b1 - 128)),
                                char_of (128 + (?b2 - 128)), char_of (128 + (?b3 - 128))]"
            unfolding c x y z t using four r1 r1' r2 r3 by (intro enc4) (auto split: if_splits)
          also have "\<dots> = [b, c1, c2, c3]" using four r1' r2 r3 by simp
          finally have e: "EncodeRune c = [b, c1, c2, c3]" .
          have "\<forall>q. DecodeRune (b # c1 # c2 # c3 # q) = (c, n)"
            using DecodeRune_4(4)[OF four, of c1 c2 c3] r1 r2 r3 c n by simp
          with e n s show ?thesis by simp
        qed
      qed
    qed
  qed
qed


lemma emit_Some_eq [simp]: "emit out (Some (t, rest)) = Some (out @ t, rest)"
  by (simp add: emit_def)

lemma hexval_hex_all: "list_all (\<lambda>d. hexval (hex ! d) = Some d) [0..<16]"
  by code_simp

lemma hexval_hex: "d < 16 \<Longrightarrow> hexval (hex ! d) = Some d"
  using hexval_hex_all unfolding list_all_iff by (simp del: upt_rec_numeral)

lemma getu4_escape:
  assumes "n < 256"
  shows "getu4 (backslash # CHR ''u'' # CHR ''0'' # CHR ''0'' # hex ! (n div 16) # hex ! (n mod 16) # X) = Some n"
proof -
  have a: "n div 16 < 16" using assms by simp
  have b: "n mod 16 < 16" by simp
  have z: "hexval (CHR ''0'') = Some 0" by (simp add: hexval_def)
  show ?thesis using hexval_hex[OF a] hexval_hex[OF b] z by (simp add: getu4_def)
qed

lemma unquoteBytes_escapeByte:
  assumes lt: "(of_char b :: nat) < 0x80" and ns: "\<not> htmlSafeSet b"
  shows "unquoteBytes (escapeByte b @ X) = emit [b] (unquoteBytes X)"
proof -
  consider (q) "b = backslash \<or> b = dquote" | (n) "b = CHR 0x0A" | (r) "b = CHR 0x0D" | (t) "b = CHR 0x09"
    | (u) "b \<noteq> backslash" "b \<noteq> dquote" "b \<noteq> CHR 0x0A" "b \<noteq> CHR 0x0D" "b \<noteq> CHR 0x09"
    by blast
  then show ?thesis
  proof cases
    case q
    then show ?thesis by (auto simp: escapeByte_def unescape_def)
  next
    case n
    then show ?thesis by (simp add: escapeByte_def unescape_def)
  next
    case r
    then show ?thesis by (simp add: escapeByte_def unescape_def)
  next
    case t
    then show ?thesis by (simp add: escapeByte_def unescape_def)
  next
    case u
    have n: "(of_char b :: nat) < 256" by simp
    have e: "EncodeRune (of_char b) = [b]" using lt by (simp add: EncodeRune_def)
    have s: "\<not> IsSurrogate (of_char b)" using lt by (simp add: IsSurrogate_def)
    show ?thesis using u getu4_escape[OF n, of X] e s
      by (simp add: escapeByte_def)
  qed
qed


lemma getu4_2028:
  assumes "c = 0x2028 \<or> c = 0x2029"
  shows "getu4 (backslash # ''u202'' @ [hex ! (c mod 16)] @ X) = Some c"
  using assms by (auto simp: getu4_def hexval_def hex_def)

lemma unquoteBytes_encodeString_aux:
  "length s \<le> k \<Longrightarrow> ValidString s \<Longrightarrow> unquoteBytes (encodeString s @ dquote # R) = Some (s, R)"
proof (induction k arbitrary: s)
  case 0
  then show ?case by simp
next
  case (Suc k)
  show ?case
  proof (cases s)
    case Nil
    then show ?thesis by simp
  next
    case (Cons b t)
    show ?thesis
    proof (cases "(of_char b :: nat) < 0x80")
      case True
      from Suc.prems Cons True have vt: "ValidString t" and lt: "length t \<le> k" by simp_all
      note ih = Suc.IH[OF lt vt]
      show ?thesis
      proof (cases "htmlSafeSet b")
        case safe: True
        then have "b \<noteq> dquote" "b \<noteq> backslash" "\<not> (of_char b :: nat) < 0x20"
          by (auto simp: htmlSafeSet_def)
        with True safe ih show ?thesis unfolding Cons by simp
      next
        case False
        with True ih unquoteBytes_escapeByte[OF True False, of "encodeString t @ dquote # R"]
        show ?thesis unfolding Cons by simp
      qed
    next
      case False
      then have hi: "0x80 \<le> (of_char b :: nat)" by simp
      obtain c n where dec: "DecodeRune (b # t) = (c, n)" by (cases "DecodeRune (b # t)")
      from Suc.prems(2) Cons False dec have ok: "\<not> (c = RuneError \<and> n = 1)"
        and vd: "ValidString (drop (n - 1) t)" by simp_all
      from DecodeRune_valid[OF hi dec ok]
      have n: "2 \<le> n" "n - 1 \<le> length t" and e: "EncodeRune c = b # take (n - 1) t"
        and d: "\<And>q. DecodeRune (b # take (n - 1) t @ q) = (c, n)" by blast+
      have "length (drop (n - 1) t) \<le> k" using Suc.prems(1) Cons by simp
      note ih = Suc.IH[OF this vd]
      have nb: "b \<noteq> dquote" "b \<noteq> backslash" "\<not> (of_char b :: nat) < 0x20"
        using hi by auto
      let ?X = "encodeString (drop (n - 1) t) @ dquote # R"
      show ?thesis
      proof (cases "c = 0x2028 \<or> c = 0x2029")
        case True
        then have ns: "\<not> IsSurrogate c" by (auto simp: IsSurrogate_def)
        have enc: "encodeString (b # t) = backslash # ''u202'' @ [hex ! (c mod 16)] @ encodeString (drop (n - 1) t)"
          using False dec ok True by simp
        have "unquoteBytes (backslash # ''u202'' @ [hex ! (c mod 16)] @ ?X) = Some (EncodeRune c @ drop (n - 1) t, R)"
          using getu4_2028[OF True, of ?X] ns ih by simp
        then show ?thesis unfolding Cons enc using e by simp
      next
        case nsep: False
        have enc: "encodeString (b # t) = b # take (n - 1) t @ encodeString (drop (n - 1) t)"
          using False dec ok nsep by simp
        have len: "length (take (n - 1) t) = n - 1" using n(2) by simp
        have "unquoteBytes (b # take (n - 1) t @ ?X) = Some (EncodeRune c @ drop (n - 1) t, R)"
          using nb False d[of ?X] ih len by simp
        then show ?thesis unfolding Cons enc using e by simp
      qed
    qed
  qed
qed

lemma unquoteBytes_encodeString:
  "ValidString s \<Longrightarrow> unquoteBytes (encodeString s @ dquote # R) = Some (s, R)"
  using unquoteBytes_encodeString_aux[of s "length s"] by simp


subsection \<open>JSON objects and the whole cursor\<close>

lemma ValidString_ascii: "\<forall>c\<in>set s. (of_char c :: nat) < 0x80 \<Longrightarrow> ValidString s"
  by (induction s) auto

lemma formatUint_ascii: "\<forall>c\<in>set (formatUint n). (of_char c :: nat) < 0x80"
proof (induction n rule: formatUint.induct)
  case (1 u)
  show ?case
  proof (cases "u < 10")
    case True
    then show ?thesis by (subst formatUint.simps) simp
  next
    case False
    have "u mod 10 < 10" by simp
    then have "(of_char (char_of (48 + u mod 10 :: nat)) :: nat) < 0x80" by simp
    with False 1 show ?thesis by (subst formatUint.simps) (simp del: of_char_of)
  qed
qed

lemma ValidString_FormatInt: "ValidString (FormatInt i)"
  using formatUint_ascii by (intro ValidString_ascii) (auto simp: FormatInt_def)

lemma skipSpace_dquote [simp]: "skipSpace (dquote # s) = dquote # s"
  by (simp add: isSpace_def)

lemma encodeMembers_Cons2:
  "encodeMembers (kv # kv' # kvs) = quoted (fst kv) @ CHR '':'' # quoted (snd kv) @ CHR '','' # encodeMembers (kv' # kvs)"
  by (cases kv) simp

lemma encodeMembers_hd: "\<exists>Y. encodeMembers (kv # kvs) = dquote # Y"
  by (cases kv; cases kvs) (auto simp: quoted_def)

lemma objectMembers_one:
  assumes "ValidString v"
  shows "objectMembers (quoted (FormatInt (sint k)) @ CHR '':'' # quoted v @ ''}'') acc
           = Inr (mapassign k v acc)"
  using assms
  by (simp add: quoted_def unquoteBytes_encodeString ValidString_FormatInt ParseInt_FormatInt_sint
        elementValue_def isSpace_def)

lemma objectMembers_step:
  assumes "ValidString v"
  shows "objectMembers (quoted (FormatInt (sint k)) @ CHR '':'' # quoted v @ CHR '','' # dquote # Y) acc
           = objectMembers (dquote # Y) (mapassign k v acc)"
  unfolding quoted_def append_Cons append_assoc
  apply (subst objectMembers.simps(2))
  using assms
  apply (simp add: unquoteBytes_encodeString ValidString_FormatInt ParseInt_FormatInt_sint
        elementValue_def isSpace_def del: objectMembers.simps(2))
  done


lemma objectMembers_encodeMembers:
  assumes "xs \<noteq> []" "\<forall>kv\<in>set xs. ValidString (snd kv)"
  shows "objectMembers (encodeMembers (map resolveKey xs) @ ''}'') acc
           = Inr (fold (\<lambda>kv m. mapassign (fst kv) (snd kv) m) xs acc)"
  using assms
proof (induction xs arbitrary: acc rule: list_nonempty_induct)
  case (single x)
  then show ?case
    using objectMembers_one[of "snd x" "fst x" acc] by (simp add: resolveKey_def)
next
  case (cons x xs)
  from cons.hyps obtain y ys where xs: "xs = y # ys" by (cases xs) auto
  obtain Y where Y: "encodeMembers (map resolveKey xs) = dquote # Y"
    using encodeMembers_hd[of "resolveKey y" "map resolveKey ys"] xs by auto
  have v: "ValidString (snd x)" using cons.prems by simp
  have "encodeMembers (map resolveKey (x # xs)) @ ''}''
        = quoted (FormatInt (sint (fst x))) @ CHR '':'' # quoted (snd x) @ CHR '','' # dquote # (Y @ ''}'')"
    using Y unfolding xs by (simp add: encodeMembers_Cons2 resolveKey_def)
  then have "objectMembers (encodeMembers (map resolveKey (x # xs)) @ ''}'') acc
        = objectMembers (dquote # (Y @ ''}'')) (mapassign (fst x) (snd x) acc)"
    using objectMembers_step[OF v, of "fst x" "Y @ ''}''" acc] by simp
  also have "dquote # (Y @ ''}'') = encodeMembers (map resolveKey xs) @ ''}''" using Y by simp
  also have "objectMembers (encodeMembers (map resolveKey xs) @ ''}'') (mapassign (fst x) (snd x) acc)
        = Inr (fold (\<lambda>kv m. mapassign (fst kv) (snd kv) m) xs (mapassign (fst x) (snd x) acc))"
    using cons.IH cons.prems by simp
  finally show ?case by simp
qed

lemma insertSorted_resolveKey:
  "\<exists>ys'. insertSorted (resolveKey x) (map resolveKey ys) = map resolveKey ys'
         \<and> set ys' = insert x (set ys) \<and> length ys' = Suc (length ys)"
proof (induction ys)
  case Nil
  have "insertSorted (resolveKey x) (map resolveKey []) = map resolveKey [x]" by simp
  then show ?case by (metis length_Cons list.set(2) list.simps(8) list.size(3) set_empty2 list.simps(15))
next
  case (Cons y ys)
  then obtain ys' where ih: "insertSorted (resolveKey x) (map resolveKey ys) = map resolveKey ys'"
    "set ys' = insert x (set ys)" "length ys' = Suc (length ys)" by blast
  show ?case
  proof (cases "stringLess (fst (resolveKey x)) (fst (resolveKey y))")
    case True
    then have "insertSorted (resolveKey x) (map resolveKey (y # ys)) = map resolveKey (x # y # ys)" by simp
    moreover have "set (x # y # ys) = insert x (set (y # ys))" by simp
    moreover have "length (x # y # ys) = Suc (length (y # ys))" by simp
    ultimately show ?thesis by blast
  next
    case False
    then have "insertSorted (resolveKey x) (map resolveKey (y # ys)) = map resolveKey (y # ys')"
      using ih(1) by simp
    moreover have "set (y # ys') = insert x (set (y # ys))" using ih(2) by auto
    moreover have "length (y # ys') = Suc (length (y # ys))" using ih(3) by simp
    ultimately show ?thesis by blast
  qed
qed

lemma sortByKey_resolveKey:
  "\<exists>m'. sortByKey (map resolveKey m) = map resolveKey m' \<and> set m' = set m \<and> length m' = length m"
proof (induction m)
  case Nil
  then show ?case by (simp add: sortByKey_def)
next
  case (Cons x m)
  then obtain m' where ih: "sortByKey (map resolveKey m) = map resolveKey m'" "set m' = set m"
    "length m' = length m" by blast
  from insertSorted_resolveKey[of x m'] obtain m'' where
    "insertSorted (resolveKey x) (map resolveKey m') = map resolveKey m''"
    "set m'' = insert x (set m')" "length m'' = Suc (length m')" by blast
  with ih show ?case by (auto simp: sortByKey_def)
qed

lemma map_of_fold_mapassign:
  "map_of (fold (\<lambda>kv m. mapassign (fst kv) (snd kv) m) xs acc) k
     = (case map_of (rev xs) k of Some v \<Rightarrow> Some v | None \<Rightarrow> map_of acc k)"
proof (induction xs arbitrary: acc)
  case Nil
  then show ?case by simp
next
  case (Cons x xs)
  show ?case
    using Cons[of "mapassign (fst x) (snd x) acc"]
    by (cases x) (auto simp: map_of_mapassign map_add_def split: option.splits)
qed

lemma distinct_fold_mapassign:
  "distinct (map fst acc) \<Longrightarrow> distinct (map fst (fold (\<lambda>kv m. mapassign (fst kv) (snd kv) m) xs acc))"
  by (induction xs arbitrary: acc) (simp_all add: distinct_mapassign)


lemma Unmarshal_Marshal:
  assumes ne: "m \<noteq> []" and d: "distinct (map fst m)" and v: "\<forall>kv\<in>set m. ValidString (snd kv)"
  shows "\<exists>enc m'. Marshal m = Inr enc \<and> Unmarshal enc = Inr m' \<and> set m' = set m
            \<and> distinct (map fst m')"
proof -
  from sortByKey_resolveKey[of m] obtain p where
    p: "sortByKey (map resolveKey m) = map resolveKey p" "set p = set m" "length p = length m" by blast
  have pne: "p \<noteq> []" using p(3) ne by auto
  have pv: "\<forall>kv\<in>set p. ValidString (snd kv)" using v p(2) by simp
  have dm: "distinct m" using d by (rule distinct_map[THEN iffD1, THEN conjunct1])
  have inj: "inj_on fst (set m)" using d by (simp add: distinct_map)
  have "card (set p) = length p" using dm p(2,3) by (simp add: distinct_card)
  then have dp: "distinct p" by (rule card_distinct)
  with inj p(2) have dfp: "distinct (map fst p)" by (simp add: distinct_map)
  let ?enc = "CHR ''{'' # encodeMembers (map resolveKey p) @ ''}''"
  let ?res = "fold (\<lambda>kv m. mapassign (fst kv) (snd kv) m) p []"
  have M: "Marshal m = Inr ?enc" by (simp add: Marshal_def p(1))
  obtain y ys where pc: "p = y # ys" using pne by (cases p) auto
  obtain Y where Y: "encodeMembers (map resolveKey p) = dquote # Y"
    using encodeMembers_hd[of "resolveKey y" "map resolveKey ys"] pc by auto
  have "Unmarshal ?enc = objectMembers (encodeMembers (map resolveKey p) @ ''}'') []"
    unfolding Y by (simp add: Unmarshal_def isSpace_def del: objectMembers.simps)
  also have "\<dots> = Inr ?res" by (rule objectMembers_encodeMembers[OF pne pv])
  finally have U: "Unmarshal ?enc = Inr ?res" .
  have dr: "distinct (map fst ?res)" by (rule distinct_fold_mapassign) simp
  have "map_of ?res = map_of p"
  proof
    fix k
    have "distinct (map fst (rev p))" using dfp by (metis distinct_rev rev_map)
    with dfp have "map_of (rev p) = map_of p"
      using map_of_inject_set[of "rev p" p] by simp
    then have "map_of (rev p) k = map_of p k" by simp
    then show "map_of ?res k = map_of p k"
      by (simp add: map_of_fold_mapassign split: option.splits)
  qed
  with dr dfp have "set ?res = set p" by (simp add: map_of_inject_set)
  with p(2) have "set ?res = set m" by simp
  with M U dr show ?thesis by blast
qed


section \<open>A request with two uploads\<close>

text \<open>
  The concrete request the examples below run: uploads A (id 1) and B (id 2). The
  client \<open>clientAB\<close> answers for A with two locations and a next page, for B with one
  location and no next page; hover text comes from B only.
\<close>

definition uploadA :: LSIFUpload where
  "uploadA = \<lparr>ID = 1\<rparr>"

definition uploadB :: LSIFUpload where
  "uploadB = \<lparr>ID = 2\<rparr>"

definition resolverAB :: lsifQueryResolver where
  "resolverAB = \<lparr>repoID = 7, commit = ''deadbeef'', path = ''main.go'', uploads = [uploadA, uploadB]\<rparr>"

definition positionArgs :: LSIFQueryPositionArgs where
  "positionArgs = \<lparr>args_Line = 10, args_Character = 4\<rparr>"

definition pagedArgs :: "32 word option \<Rightarrow> string option \<Rightarrow> LSIFPagedQueryPositionArgs" where
  "pagedArgs first after = \<lparr>args_Line = 10, args_Character = 4, First = first, After = after\<rparr>"

definition clientAB :: "(string, nat) Client" where
  "clientAB =
     \<lparr>ClientDefinitions =
        (\<lambda>opts. if UploadID opts = 1 then Inr ([''L1'', ''L2''], []) else Inr ([''L3''], [])),
      ClientReferences =
        (\<lambda>opts. if UploadID opts = 1 then Inr ([''L1'', ''L2''], ''tokA'') else Inr ([''L3''], [])),
      ClientHover =
        (\<lambda>opts. if UploadID opts = 1 then Inr ([], 0) else Inr (''doc'', 5))\<rparr>"

text \<open>B's call fails; A answers as before, with no hover text.\<close>

definition clientBFails :: "(string, nat) Client" where
  "clientBFails =
     \<lparr>ClientDefinitions =
        (\<lambda>opts. if UploadID opts = 1 then Inr ([''L1'', ''L2''], []) else Inl (ClientError ''boom'')),
      ClientReferences =
        (\<lambda>opts. if UploadID opts = 1 then Inr ([''L1'', ''L2''], ''tokA'') else Inl (ClientError ''boom'')),
      ClientHover =
        (\<lambda>opts. if UploadID opts = 1 then Inr ([], 0) else Inl (ClientError ''boom''))\<rparr>"

text \<open>Hover text \<open>a\<close> from A and \<open>b\<close> from B.\<close>

definition clientHover :: "string \<Rightarrow> string \<Rightarrow> (string, nat) Client" where
  "clientHover a b =
     \<lparr>ClientDefinitions = (\<lambda>opts. Inr ([], [])),
      ClientReferences = (\<lambda>opts. Inr ([], [])),
      ClientHover = (\<lambda>opts. if UploadID opts = 1 then Inr (a, 3) else Inr (b, 5))\<rparr>"

text \<open>Rewrite rules that evaluate the codec and the resolver on concrete inputs.\<close>

lemma char_of_bits:
  "char_of (n::nat) =
     Char (odd n) (odd (n div 2)) (odd (n div 4)) (odd (n div 8))
          (odd (n div 16)) (odd (n div 32)) (odd (n div 64)) (odd (n div 128))"
  by (simp add: char_of_def bit_iff_odd_drop_bit drop_bit_eq_div)

lemmas b64_eval = DecodeString_def decodeMap_def encodeStd_def isNewline_def padChar_def
  quantumVal_def encode6_def char_of_bits

lemmas json_eval = Unmarshal_def isSpace_def elementValue_def emit_def unescape_def getu4_def
  hexval_def ParseInt_def ParseUint_def isDigit_def DecodeRune_def EncodeRune_def RuneError_def
  IsSurrogate_def DecodeRune16_def Marshal_def resolveKey_def sortByKey_def quoted_def htmlSafeSet_def
  escapeByte_def hex_def FormatInt_def formatUint.simps

lemmas codec_eval = readCursor_def makeCursor_def b64_eval json_eval

lemmas fixture_eval = uploadA_def uploadB_def resolverAB_def positionArgs_def pagedArgs_def
  clientAB_def clientBFails_def clientHover_def positionOpts_def referencesOpts_def Definitions_def References_def Hover_def Let_def


section \<open>The claims\<close>

text \<open>
  C1. The claim: an upload whose call returned an empty next-page token, and which so
  has no entry in the cursor of the next request, is not queried on that next page.
  The loop of \<^verbatim>\<open>References\<close> calls the client for every candidate upload on every page
  and uses the cursor only to fill \<^verbatim>\<open>opts.Cursor\<close>. In the request below B returns no
  token on the first page; the second page, run with the first page's \<^verbatim>\<open>endCursor\<close>,
  calls the client for B again, with no cursor (B's first page once more).
\<close>

theorem References_requeries_exhausted_upload:
  "References clientAB resolverAB (pagedArgs None None)
     = ([\<lparr>RepoID = 7, Commit = ''deadbeef'', Path = ''main.go'', Line = 10, Character = 4,
          UploadID = 1, Limit = None, Cursor = None\<rparr>,
         \<lparr>RepoID = 7, Commit = ''deadbeef'', Path = ''main.go'', Line = 10, Character = 4,
          UploadID = 2, Limit = None, Cursor = None\<rparr>],
        Inr \<lparr>locations = [''L1'', ''L2'', ''L3''], endCursor = ''eyIxIjoidG9rQSJ9''\<rparr>)
   \<and> readCursor (Some ''eyIxIjoidG9rQSJ9'') = Inr [(1, ''tokA'')]
   \<and> fst (References clientAB resolverAB (pagedArgs None (Some ''eyIxIjoidG9rQSJ9'')))
     = [\<lparr>RepoID = 7, Commit = ''deadbeef'', Path = ''main.go'', Line = 10, Character = 4,
          UploadID = 1, Limit = None, Cursor = Some ''tokA''\<rparr>,
         \<lparr>RepoID = 7, Commit = ''deadbeef'', Path = ''main.go'', Line = 10, Character = 4,
          UploadID = 2, Limit = None, Cursor = None\<rparr>]"
  by (simp add: fixture_eval codec_eval)


text \<open>
  C2. Cursor round trip, as the code has it: for every cursor map with at least one
  entry (and one entry per key, as a Go map has) whose tokens are valid UTF-8,
  \<^verbatim>\<open>makeCursor\<close> succeeds and \<^verbatim>\<open>readCursor\<close> of its result succeeds with a map that has
  the same (key, token) pairs. The claim as stated covers every map. It fails for the
  empty map, whose encoding is the empty string, which \<^verbatim>\<open>readCursor\<close> rejects; and it
  fails for a token that is not valid UTF-8, each invalid byte of which
  \<^verbatim>\<open>json.Marshal\<close> writes as U+FFFD.
\<close>

theorem cursor_roundtrip:
  assumes "m \<noteq> []" and "distinct (map fst m)" and "\<forall>kv\<in>set m. ValidString (snd kv)"
  shows "\<exists>encoded m'. makeCursor m = Inr encoded \<and> readCursor (Some encoded) = Inr m'
            \<and> set m' = set m \<and> distinct (map fst m')"
proof -
  from Unmarshal_Marshal[OF assms] obtain enc m' where
    a: "Marshal m = Inr enc" "Unmarshal enc = Inr m'" "set m' = set m" "distinct (map fst m')" by blast
  have "makeCursor m = Inr (EncodeToString enc)" using a(1) assms(1) by (simp add: makeCursor_def)
  moreover have "readCursor (Some (EncodeToString enc)) = Inr m'"
    using a(2) by (simp add: readCursor_def DecodeString_EncodeToString)
  ultimately show ?thesis using a(3,4) by blast
qed

theorem cursor_roundtrip_witness:
  "\<exists>encoded m'. makeCursor [(1, ''tokA''), (2, ''a<b'' @ [CHR 0xC3, CHR 0xA9])] = Inr encoded
      \<and> readCursor (Some encoded) = Inr m'
      \<and> set m' = {(1, ''tokA''), (2, ''a<b'' @ [CHR 0xC3, CHR 0xA9])}"
  using cursor_roundtrip[of "[(1, ''tokA''), (2, ''a<b'' @ [CHR 0xC3, CHR 0xA9])]"]
  by (auto simp: DecodeRune_def RuneError_def)

theorem cursor_roundtrip_counterexample:
  "makeCursor [] = Inr [] \<and> readCursor (Some []) = Inl JSONError
   \<and> makeCursor [(1, [CHR 0xFF])] = Inr ''eyIxIjoiXHVmZmZkIn0=''
   \<and> readCursor (Some ''eyIxIjoiXHVmZmZkIn0='') = Inr [(1, [CHR 0xEF, CHR 0xBF, CHR 0xBD])]"
  by (simp add: codec_eval)


text \<open>
  C3. Sentinel values of the codec, as the code has them: \<^verbatim>\<open>makeCursor\<close> of the empty
  map is the empty string with no error, and \<^verbatim>\<open>readCursor\<close> of an absent (nil) token is
  the empty map with no error. The claim as stated adds that the empty string decodes
  to the empty map. It does not: \<^verbatim>\<open>readCursor\<close> guards \<^verbatim>\<open>after == nil\<close> only, base64
  decodes the empty string to no bytes, and \<^verbatim>\<open>json.Unmarshal\<close> of no bytes is an error
  (unexpected end of JSON input).
\<close>

theorem cursor_sentinels:
  "makeCursor [] = Inr [] \<and> readCursor None = Inr []"
  by (simp add: codec_eval)

theorem empty_string_cursor_counterexample:
  "DecodeString [] = Inr [] \<and> Unmarshal [] = Inl JSONError \<and> readCursor (Some []) = Inl JSONError"
  by (simp add: codec_eval)






text \<open>
  C5. Fail-fast on a backend error: in \<^verbatim>\<open>Definitions\<close>, \<^verbatim>\<open>References\<close> and \<^verbatim>\<open>Hover\<close>,
  if a call the operation made returned an error, the operation returns that same
  error. The result is the error and nothing else: there is no page, so the locations
  earlier uploads returned in the same request are not returned.
\<close>

theorem backend_error_fails_request:
  "(\<forall>opts\<in>set (fst (Definitions cl r args)). \<forall>e.
       ClientDefinitions cl opts = Inl e \<longrightarrow> snd (Definitions cl r args) = Inl e)
   \<and> (\<forall>opts\<in>set (fst (References cl r pargs)). \<forall>e.
       ClientReferences cl opts = Inl e \<longrightarrow> snd (References cl r pargs) = Inl e)
   \<and> (\<forall>opts\<in>set (fst (Hover cl r args)). \<forall>e.
       ClientHover cl opts = Inl e \<longrightarrow> snd (Hover cl r args) = Inl e)"
proof (intro conjI ballI allI impI)
  fix opts e
  assume o: "opts \<in> set (fst (Definitions cl r args))" and e: "ClientDefinitions cl opts = Inl e"
  obtain calls res where l: "definitionsLoop cl r args (uploads r) [] = (calls, res)"
    by (cases "definitionsLoop cl r args (uploads r) []")
  from o l have "opts \<in> set calls" by (auto simp: Definitions_def split: sum.splits)
  from definitionsLoop_failfast[OF l this e] l
  show "snd (Definitions cl r args) = Inl e" by (simp add: Definitions_def)
next
  fix opts e
  assume o: "opts \<in> set (fst (References cl r pargs))" and e: "ClientReferences cl opts = Inl e"
  from o obtain nx where nx: "readCursor (After pargs) = Inr nx"
    by (cases "readCursor (After pargs)") (auto simp: References_def)
  obtain calls res where l: "referencesLoop cl r pargs nx (uploads r) [] [] = (calls, res)"
    by (cases "referencesLoop cl r pargs nx (uploads r) [] []")
  from o l nx have "opts \<in> set calls"
    by (auto simp: References_def split: sum.splits prod.splits)
  from referencesLoop_failfast[OF l this e] l nx
  show "snd (References cl r pargs) = Inl e" by (simp add: References_def)
next
  fix opts e
  assume o: "opts \<in> set (fst (Hover cl r args))" and e: "ClientHover cl opts = Inl e"
  obtain calls res where l: "hoverLoop cl r args (uploads r) = (calls, res)"
    by (cases "hoverLoop cl r args (uploads r)")
  from o l have "opts \<in> set calls" by (simp add: Hover_def)
  from hoverLoop_failfast[OF l this e] l
  show "snd (Hover cl r args) = Inl e" by (simp add: Hover_def)
qed

theorem backend_error_fails_request_witness:
  "Definitions clientBFails resolverAB positionArgs
     = ([positionOpts resolverAB positionArgs uploadA, positionOpts resolverAB positionArgs uploadB],
        Inl (ClientError ''boom''))
   \<and> References clientBFails resolverAB (pagedArgs None None)
     = ([referencesOpts resolverAB (pagedArgs None None) [] uploadA,
         referencesOpts resolverAB (pagedArgs None None) [] uploadB],
        Inl (ClientError ''boom''))
   \<and> Hover clientBFails resolverAB positionArgs
     = ([positionOpts resolverAB positionArgs uploadA, positionOpts resolverAB positionArgs uploadB],
        Inl (ClientError ''boom''))"
proof -
  let ?d = "Definitions clientBFails resolverAB positionArgs"
  let ?r = "References clientBFails resolverAB (pagedArgs None None)"
  let ?h = "Hover clientBFails resolverAB positionArgs"
  let ?po = "positionOpts resolverAB positionArgs"
  let ?ro = "referencesOpts resolverAB (pagedArgs None None) []"
  note th = backend_error_fails_request[of clientBFails resolverAB positionArgs "pagedArgs None None"]
  have d: "fst ?d = [?po uploadA, ?po uploadB]"
    by (simp add: fixture_eval clientBFails_def)
  have r: "fst ?r = [?ro uploadA, ?ro uploadB]"
    by (simp add: fixture_eval clientBFails_def readCursor_def)
  have h: "fst ?h = [?po uploadA, ?po uploadB]"
    by (simp add: fixture_eval clientBFails_def)
  have "snd ?d = Inl (ClientError ''boom'')"
    using th d by (simp add: fixture_eval clientBFails_def)
  moreover have "snd ?r = Inl (ClientError ''boom'')"
    using th r by (simp add: fixture_eval clientBFails_def)
  moreover have "snd ?h = Inl (ClientError ''boom'')"
    using th h by (simp add: fixture_eval clientBFails_def)
  ultimately show ?thesis using d r h by (simp add: prod_eq_iff)
qed


text \<open>
  C6. Outgoing cursor invariant: on a page of \<^verbatim>\<open>References\<close> that succeeds, the map
  \<^verbatim>\<open>newCursors\<close> the loop leaves has one entry per key, and it maps \<open>k\<close> to \<open>t\<close> exactly
  when \<open>t\<close> is non-empty and the call for a candidate upload with id \<open>k\<close> returned
  \<open>t\<close> as its next-page token. The \<^verbatim>\<open>endCursor\<close> of the page is \<^verbatim>\<open>makeCursor\<close> of that
  map, and it is the empty string exactly when the map is empty.
\<close>

theorem outgoing_cursor_invariant:
  assumes "readCursor (After args) = Inr nextURLs" and "References cl r args = (calls, Inr page)"
  shows "\<exists>newCursors.
           referencesLoop cl r args nextURLs (uploads r) [] [] = (calls, Inr (locations page, newCursors))
           \<and> makeCursor newCursors = Inr (endCursor page)
           \<and> distinct (map fst newCursors)
           \<and> (\<forall>k t. map_of newCursors k = Some t \<longleftrightarrow>
                 t \<noteq> [] \<and> (\<exists>u\<in>set (uploads r). ID u = k \<and>
                    (\<exists>locs. ClientReferences cl (referencesOpts r args nextURLs u) = Inr (locs, t))))
           \<and> (endCursor page = [] \<longleftrightarrow> newCursors = [])"
proof -
  from References_success[OF assms] obtain newCursors where
    l: "referencesLoop cl r args nextURLs (uploads r) [] [] = (calls, Inr (locations page, newCursors))"
    and m: "makeCursor newCursors = Inr (endCursor page)" by blast
  have d: "distinct (map fst newCursors)" using referencesLoop_distinct[OF l] by simp
  have c: "\<And>k. map_of newCursors k =
     (if k \<in> ID ` set (uploads r) \<and> nextURLOf cl r args nextURLs k \<noteq> []
      then Some (nextURLOf cl r args nextURLs k) else None)"
    using referencesLoop_cursors[OF l] by simp
  have all: "\<forall>u\<in>set (uploads r). \<exists>locs tok. ClientReferences cl (referencesOpts r args nextURLs u) = Inr (locs, tok)"
    using referencesLoop_success_all[OF l] .
  have ch: "\<forall>k t. map_of newCursors k = Some t \<longleftrightarrow>
                 t \<noteq> [] \<and> (\<exists>u\<in>set (uploads r). ID u = k \<and>
                    (\<exists>locs. ClientReferences cl (referencesOpts r args nextURLs u) = Inr (locs, t)))"
  proof (intro allI iffI)
    fix k t assume "map_of newCursors k = Some t"
    with c[of k] have k: "k \<in> ID ` set (uploads r)" and t: "t = nextURLOf cl r args nextURLs k" and ne: "t \<noteq> []"
      by (auto split: if_splits)
    from k obtain u where u: "u \<in> set (uploads r)" "ID u = k" by auto
    from all u obtain locs tok where resp: "ClientReferences cl (referencesOpts r args nextURLs u) = Inr (locs, tok)"
      by blast
    from nextURLOf_resp[OF resp] u t have "tok = t" by simp
    with resp u ne show "t \<noteq> [] \<and> (\<exists>u\<in>set (uploads r). ID u = k \<and>
                    (\<exists>locs. ClientReferences cl (referencesOpts r args nextURLs u) = Inr (locs, t)))"
      by blast
  next
    fix k t assume "t \<noteq> [] \<and> (\<exists>u\<in>set (uploads r). ID u = k \<and>
                    (\<exists>locs. ClientReferences cl (referencesOpts r args nextURLs u) = Inr (locs, t)))"
    then obtain u locs where ne: "t \<noteq> []" and u: "u \<in> set (uploads r)" "ID u = k"
      and resp: "ClientReferences cl (referencesOpts r args nextURLs u) = Inr (locs, t)" by blast
    from nextURLOf_resp[OF resp] u have "nextURLOf cl r args nextURLs k = t" by simp
    with c[of k] u ne show "map_of newCursors k = Some t" by auto
  qed
  have "endCursor page = [] \<longleftrightarrow> newCursors = []"
    using m makeCursor_Nil_iff[of newCursors] by auto
  with l m d ch show ?thesis by blast
qed

theorem outgoing_cursor_invariant_witness:
  "\<exists>calls page newCursors.
     References clientAB resolverAB (pagedArgs None None) = (calls, Inr page)
     \<and> makeCursor newCursors = Inr (endCursor page)
     \<and> map_of newCursors 1 = Some ''tokA'' \<and> map_of newCursors 2 = None
     \<and> endCursor page = ''eyIxIjoidG9rQSJ9''"
proof -
  have r: "readCursor (After (pagedArgs None None)) = Inr []"
    by (simp add: pagedArgs_def readCursor_def)
  have e: "References clientAB resolverAB (pagedArgs None None)
            = ([referencesOpts resolverAB (pagedArgs None None) [] uploadA,
                referencesOpts resolverAB (pagedArgs None None) [] uploadB],
               Inr \<lparr>locations = [''L1'', ''L2'', ''L3''], endCursor = ''eyIxIjoidG9rQSJ9''\<rparr>)"
    by (simp add: fixture_eval codec_eval)
  from outgoing_cursor_invariant[OF r e] obtain nc where
    m: "makeCursor nc = Inr ''eyIxIjoidG9rQSJ9''" and
    ch: "\<forall>k t. map_of nc k = Some t \<longleftrightarrow> t \<noteq> [] \<and> (\<exists>u\<in>set (uploads resolverAB). ID u = k \<and>
        (\<exists>locs. ClientReferences clientAB (referencesOpts resolverAB (pagedArgs None None) [] u)
                   = Inr (locs, t)))"
    by auto
  have a: "map_of nc 1 = Some ''tokA''"
    using ch[rule_format, of 1 "''tokA''"] by (simp add: fixture_eval)
  have "\<And>t. map_of nc 2 \<noteq> Some t"
    using ch by (auto simp add: fixture_eval)
  then have b: "map_of nc 2 = None" by (cases "map_of nc 2") auto
  from e m a b show ?thesis by auto
qed


text \<open>
  C7. Hover short-circuit: \<^verbatim>\<open>Hover\<close> queries the uploads in candidate order. If the
  uploads before \<open>u\<close> return empty text and \<open>u\<close> returns non-empty text, the result
  is \<open>u\<close>'s text and range, and the calls made are those for the uploads up to and
  including \<open>u\<close>: no later upload is queried. If every upload returns empty text, the
  result is no hover information (a nil resolver) and no error.
\<close>

theorem Hover_first_nonempty:
  "(\<forall>pre u post tx rng.
      uploads r = pre @ u # post
      \<and> (\<forall>p\<in>set pre. \<exists>rng'. ClientHover cl (positionOpts r args p) = Inr ([], rng'))
      \<and> ClientHover cl (positionOpts r args u) = Inr (tx, rng) \<and> tx \<noteq> []
      \<longrightarrow> Hover cl r args
            = (map (positionOpts r args) (pre @ [u]), Inr (Some \<lparr>hover_text = tx, lspRange = rng\<rparr>)))
   \<and> ((\<forall>p\<in>set (uploads r). \<exists>rng'. ClientHover cl (positionOpts r args p) = Inr ([], rng'))
      \<longrightarrow> Hover cl r args = (map (positionOpts r args) (uploads r), Inr None))"
proof (intro conjI allI impI)
  fix pre u post tx rng
  assume a: "uploads r = pre @ u # post
      \<and> (\<forall>p\<in>set pre. \<exists>rng'. ClientHover cl (positionOpts r args p) = Inr ([], rng'))
      \<and> ClientHover cl (positionOpts r args u) = Inr (tx, rng) \<and> tx \<noteq> []"
  then show "Hover cl r args
            = (map (positionOpts r args) (pre @ [u]), Inr (Some \<lparr>hover_text = tx, lspRange = rng\<rparr>))"
    using hoverLoop_first[of "pre" cl r args u tx rng "post"] by (simp add: Hover_def)
next
  assume "\<forall>p\<in>set (uploads r). \<exists>rng'. ClientHover cl (positionOpts r args p) = Inr ([], rng')"
  then show "Hover cl r args = (map (positionOpts r args) (uploads r), Inr None)"
    using hoverLoop_all_empty[of "uploads r" cl r args] by (simp add: Hover_def)
qed

theorem Hover_first_nonempty_witness:
  "Hover (clientHover [] ''doc'') resolverAB positionArgs
     = ([positionOpts resolverAB positionArgs uploadA, positionOpts resolverAB positionArgs uploadB],
        Inr (Some \<lparr>hover_text = ''doc'', lspRange = 5\<rparr>))
   \<and> Hover (clientHover ''first'' ''doc'') resolverAB positionArgs
     = ([positionOpts resolverAB positionArgs uploadA],
        Inr (Some \<lparr>hover_text = ''first'', lspRange = 3\<rparr>))
   \<and> Hover (clientHover [] []) resolverAB positionArgs
     = ([positionOpts resolverAB positionArgs uploadA, positionOpts resolverAB positionArgs uploadB],
        Inr None)"
proof -
  have 1: "Hover (clientHover [] ''doc'') resolverAB positionArgs
     = ([positionOpts resolverAB positionArgs uploadA, positionOpts resolverAB positionArgs uploadB],
        Inr (Some \<lparr>hover_text = ''doc'', lspRange = 5\<rparr>))"
    using Hover_first_nonempty[of resolverAB "clientHover [] ''doc''" positionArgs,
        THEN conjunct1, rule_format, of "[uploadA]" uploadB "[]" "''doc''" "5::nat"]
    by (simp add: fixture_eval clientHover_def)
  have 2: "Hover (clientHover ''first'' ''doc'') resolverAB positionArgs
     = ([positionOpts resolverAB positionArgs uploadA],
        Inr (Some \<lparr>hover_text = ''first'', lspRange = 3\<rparr>))"
    using Hover_first_nonempty[of resolverAB "clientHover ''first'' ''doc''" positionArgs,
        THEN conjunct1, rule_format, of "[]" uploadA "[uploadB]" "''first''" "3::nat"]
    by (simp add: fixture_eval clientHover_def)
  have 3: "Hover (clientHover [] []) resolverAB positionArgs
     = ([positionOpts resolverAB positionArgs uploadA, positionOpts resolverAB positionArgs uploadB],
        Inr None)"
    using Hover_first_nonempty[of resolverAB "clientHover [] []" positionArgs, THEN conjunct2]
    by (simp add: fixture_eval clientHover_def)
  from 1 2 3 show ?thesis by blast
qed


text \<open>
  C8. Definitions ordering: when every upload's lookup succeeds, the result of
  \<^verbatim>\<open>Definitions\<close> is the concatenation of the location lists the client returned, in
  the order of the candidate uploads and, within an upload, in the order the client
  returned them; nothing is removed, so a location two uploads report appears twice.
  One call is made per upload, in that order.
\<close>

theorem Definitions_upload_order:
  assumes "\<forall>u\<in>set (uploads r). ClientDefinitions cl (positionOpts r args u) = Inr (locs u, meta u)"
  shows "Definitions cl r args =
           (map (positionOpts r args) (uploads r),
            Inr \<lparr>locations = concat (map locs (uploads r)), endCursor = []\<rparr>)"
  using definitionsLoop_ok[of "uploads r" cl r args locs meta "[]"] assms
  by (simp add: Definitions_def)

theorem Definitions_upload_order_witness:
  "snd (Definitions clientAB resolverAB positionArgs)
     = Inr \<lparr>locations = [''L1'', ''L2'', ''L3''], endCursor = []\<rparr>"
  using Definitions_upload_order[of resolverAB clientAB positionArgs
      "\<lambda>u. if ID u = 1 then [''L1'', ''L2''] else [''L3'']" "\<lambda>u. []"]
  by (simp add: fixture_eval)


text \<open>
  C9. Page-size pass-through: every call \<^verbatim>\<open>References\<close> makes carries \<^verbatim>\<open>args.First\<close> as
  its \<^verbatim>\<open>Limit\<close>: the given value when there is one, no limit when there is none. On a
  page that succeeds there is one such call for each candidate upload, in order.
\<close>

theorem References_limit_passthrough:
  "(\<forall>opts\<in>set (fst (References cl r args)). Limit opts = First args)
   \<and> (\<forall>page. snd (References cl r args) = Inr page
        \<longrightarrow> map UploadID (fst (References cl r args)) = map ID (uploads r))"
proof (cases "readCursor (After args)")
  case (Inl e)
  then show ?thesis by (simp add: References_def)
next
  case (Inr nx)
  obtain calls res where l: "referencesLoop cl r args nx (uploads r) [] [] = (calls, res)"
    by (cases "referencesLoop cl r args nx (uploads r) [] []")
  have f: "fst (References cl r args) = calls"
    using Inr l by (auto simp: References_def split: sum.splits prod.splits)
  from referencesLoop_calls[OF l] obtain n where
    n: "calls = map (referencesOpts r args nx) (take n (uploads r))"
    and full: "(\<exists>v. res = Inr v) \<longrightarrow> calls = map (referencesOpts r args nx) (uploads r)"
    by blast
  have lim: "\<forall>opts\<in>set calls. Limit opts = First args"
    using n by (auto simp: referencesOpts_def)
  have "\<forall>page. snd (References cl r args) = Inr page \<longrightarrow> map UploadID calls = map ID (uploads r)"
  proof (intro allI impI)
    fix page assume "snd (References cl r args) = Inr page"
    with Inr l have "\<exists>v. res = Inr v"
      by (cases res) (simp_all add: References_def)
    with full have "calls = map (referencesOpts r args nx) (uploads r)" by blast
    then show "map UploadID calls = map ID (uploads r)" by (simp add: referencesOpts_def comp_def)
  qed
  with lim f show ?thesis by simp
qed

theorem References_limit_passthrough_witness:
  "map Limit (fst (References clientAB resolverAB (pagedArgs (Some 25) None))) = [Some 25, Some 25]
   \<and> map Limit (fst (References clientAB resolverAB (pagedArgs None None))) = [None, None]"
proof -
  have a: "map UploadID (fst (References clientAB resolverAB (pagedArgs (Some 25) None))) = [1, 2]"
    using References_limit_passthrough[of clientAB resolverAB "pagedArgs (Some 25) None"]
    by (simp add: fixture_eval codec_eval)
  have b: "map UploadID (fst (References clientAB resolverAB (pagedArgs None None))) = [1, 2]"
    using References_limit_passthrough[of clientAB resolverAB "pagedArgs None None"]
    by (simp add: fixture_eval codec_eval)
  from a have "length (fst (References clientAB resolverAB (pagedArgs (Some 25) None))) = 2"
    by (metis length_map length_Cons list.size(3) numeral_2_eq_2)
  then obtain x y where xy: "fst (References clientAB resolverAB (pagedArgs (Some 25) None)) = [x, y]"
    by (auto simp: length_Suc_conv numeral_2_eq_2)
  from b have "length (fst (References clientAB resolverAB (pagedArgs None None))) = 2"
    by (metis length_map length_Cons list.size(3) numeral_2_eq_2)
  then obtain x' y' where xy': "fst (References clientAB resolverAB (pagedArgs None None)) = [x', y']"
    by (auto simp: length_Suc_conv numeral_2_eq_2)
  from References_limit_passthrough[of clientAB resolverAB "pagedArgs (Some 25) None"] xy
  have 1: "map Limit (fst (References clientAB resolverAB (pagedArgs (Some 25) None))) = [Some 25, Some 25]"
    by (simp add: pagedArgs_def)
  from References_limit_passthrough[of clientAB resolverAB "pagedArgs None None"] xy'
  have 2: "map Limit (fst (References clientAB resolverAB (pagedArgs None None))) = [None, None]"
    by (simp add: pagedArgs_def)
  from 1 2 show ?thesis by simp
qed


text \<open>
  C10. Unknown cursor entries are dropped: with a cursor that decodes, whatever keys it
  has, the calls \<^verbatim>\<open>References\<close> makes are for candidate uploads only (a prefix of the
  candidate list, in order), the keys of the outgoing map are ids of candidate uploads,
  and the request behaves exactly as a request whose cursor agrees with it on the
  candidate uploads' ids: an entry under any other key changes nothing, so it causes
  no failure.
\<close>

theorem unknown_cursor_entries_dropped:
  assumes "readCursor (After args) = Inr nextURLs"
  shows "(\<exists>n. map UploadID (fst (References cl r args)) = take n (map ID (uploads r)))
   \<and> (\<forall>page. snd (References cl r args) = Inr page \<longrightarrow>
        (\<exists>calls newCursors.
           referencesLoop cl r args nextURLs (uploads r) [] [] = (calls, Inr (locations page, newCursors))
           \<and> makeCursor newCursors = Inr (endCursor page)
           \<and> fst ` set newCursors \<subseteq> ID ` set (uploads r)))
   \<and> (\<forall>after' nextURLs'.
        readCursor after' = Inr nextURLs'
        \<and> (\<forall>u\<in>set (uploads r). map_of nextURLs' (ID u) = map_of nextURLs (ID u))
        \<longrightarrow> References cl r (args\<lparr>After := after'\<rparr>) = References cl r args)"
proof (intro conjI allI impI)
  obtain calls res where l: "referencesLoop cl r args nextURLs (uploads r) [] [] = (calls, res)"
    by (cases "referencesLoop cl r args nextURLs (uploads r) [] []")
  have f: "fst (References cl r args) = calls"
    using assms l by (auto simp: References_def split: sum.splits prod.splits)
  from referencesLoop_calls[OF l] obtain n where
    "calls = map (referencesOpts r args nextURLs) (take n (uploads r))" by blast
  then have "map UploadID calls = take n (map ID (uploads r))"
    by (simp add: referencesOpts_def comp_def take_map)
  with f show "\<exists>n. map UploadID (fst (References cl r args)) = take n (map ID (uploads r))" by auto
next
  fix page assume p: "snd (References cl r args) = Inr page"
  obtain calls where "References cl r args = (calls, Inr page)"
    using p by (cases "References cl r args") simp
  from References_success[OF assms this] obtain newCursors where
    l: "referencesLoop cl r args nextURLs (uploads r) [] [] = (calls, Inr (locations page, newCursors))"
    and m: "makeCursor newCursors = Inr (endCursor page)" by blast
  from referencesLoop_keys[OF l] have "fst ` set newCursors \<subseteq> ID ` set (uploads r)" by simp
  with l m show "\<exists>calls newCursors.
           referencesLoop cl r args nextURLs (uploads r) [] [] = (calls, Inr (locations page, newCursors))
           \<and> makeCursor newCursors = Inr (endCursor page)
           \<and> fst ` set newCursors \<subseteq> ID ` set (uploads r)" by blast
next
  fix after' nextURLs'
  assume a: "readCursor after' = Inr nextURLs'
        \<and> (\<forall>u\<in>set (uploads r). map_of nextURLs' (ID u) = map_of nextURLs (ID u))"
  then have "referencesLoop cl r args nextURLs' (uploads r) [] [] = referencesLoop cl r args nextURLs (uploads r) [] []"
    by (intro referencesLoop_nextURLs_cong) simp
  with a assms show "References cl r (args\<lparr>After := after'\<rparr>) = References cl r args"
    by (simp add: References_def referencesLoop_After)
qed

theorem unknown_cursor_entries_dropped_witness:
  "readCursor (Some ''eyIxIjoidG9rQSIsIjk5Ijoienp6In0='') = Inr [(1, ''tokA''), (99, ''zzz'')]
   \<and> References clientAB resolverAB (pagedArgs None (Some ''eyIxIjoidG9rQSIsIjk5Ijoienp6In0=''))
     = References clientAB resolverAB (pagedArgs None (Some ''eyIxIjoidG9rQSJ9''))
   \<and> map UploadID (fst (References clientAB resolverAB (pagedArgs None (Some ''eyIxIjoidG9rQSIsIjk5Ijoienp6In0=''))))
     = [1, 2]"
proof -
  have known: "readCursor (After (pagedArgs None (Some ''eyIxIjoidG9rQSJ9''))) = Inr [(1, ''tokA'')]"
    by (simp add: pagedArgs_def codec_eval)
  have unknown: "readCursor (Some ''eyIxIjoidG9rQSIsIjk5Ijoienp6In0='') = Inr [(1, ''tokA''), (99, ''zzz'')]"
    by (simp add: codec_eval)
  have upd: "(pagedArgs None (Some ''eyIxIjoidG9rQSJ9''))\<lparr>After := Some ''eyIxIjoidG9rQSIsIjk5Ijoienp6In0=''\<rparr>
              = pagedArgs None (Some ''eyIxIjoidG9rQSIsIjk5Ijoienp6In0='')"
    by (simp add: pagedArgs_def)
  from unknown_cursor_entries_dropped[OF known, of clientAB resolverAB, THEN conjunct2, THEN conjunct2,
      rule_format, of "Some ''eyIxIjoidG9rQSIsIjk5Ijoienp6In0=''" "[(1, ''tokA''), (99, ''zzz'')]"] unknown
  have same: "References clientAB resolverAB (pagedArgs None (Some ''eyIxIjoidG9rQSIsIjk5Ijoienp6In0=''))
     = References clientAB resolverAB (pagedArgs None (Some ''eyIxIjoidG9rQSJ9''))"
    unfolding upd by (simp add: resolverAB_def uploadA_def uploadB_def)
  have "map UploadID (fst (References clientAB resolverAB (pagedArgs None (Some ''eyIxIjoidG9rQSJ9'')))) = [1, 2]"
    by (simp add: fixture_eval codec_eval)
  with same unknown show ?thesis by simp
qed

end
